theory Spec2Isabelle
  imports Complex_Main "HOL-Library.Monad_Syntax"
begin

section \<open>Python values used by the chess board\<close>

text \<open>
  The embedding follows \<^verbatim>\<open>modules/move.py\<close> and \<^verbatim>\<open>modules/board.py\<close>.
  A Python exception is the value \<open>None\<close> of an option type: a function that can
  raise returns \<open>'a option\<close>, and the do-notation propagates the exception as Python
  does. Strings are ASCII strings. A board square holds one of the two-character
  piece codes of the source (\<^verbatim>\<open>'wK'\<close>, \<^verbatim>\<open>'bp'\<close>, \<^verbatim>\<open>'--'\<close>), kept as a string.
\<close>

type_synonym piece = string

text \<open>Python list indexing: a negative index counts from the end, anything else out of
  range raises IndexError.\<close>

definition py_index :: "'a list \<Rightarrow> int \<Rightarrow> 'a option" where
  "py_index xs i =
     (let n = int (length xs); j = (if i < 0 then i + n else i)
      in if 0 \<le> j \<and> j < n then Some (xs ! nat j) else None)"

definition py_store :: "'a list \<Rightarrow> int \<Rightarrow> 'a \<Rightarrow> 'a list option" where
  "py_store xs i v =
     (let n = int (length xs); j = (if i < 0 then i + n else i)
      in if 0 \<le> j \<and> j < n then Some (xs[nat j := v]) else None)"

text \<open>\<^verbatim>\<open>board_array[r][c]\<close> and \<^verbatim>\<open>board_array[r][c] = v\<close>.\<close>

definition grid_get :: "piece list list \<Rightarrow> int \<Rightarrow> int \<Rightarrow> piece option" where
  "grid_get g r c = do { row \<leftarrow> py_index g r; py_index row c }"

definition grid_set :: "piece list list \<Rightarrow> int \<Rightarrow> int \<Rightarrow> piece \<Rightarrow> piece list list option" where
  "grid_set g r c v = do { row \<leftarrow> py_index g r; row' \<leftarrow> py_store row c v; py_store g r row' }"

text \<open>\<^verbatim>\<open>str(n)\<close> for a Python int.\<close>

fun digits_of :: "nat \<Rightarrow> string" where
  "digits_of n =
     (if n < 10 then [char_of (48 + n)]
      else digits_of (n div 10) @ [char_of (48 + n mod 10)])"

definition py_str_int :: "int \<Rightarrow> string" where
  "py_str_int i = (if i < 0 then CHR ''-'' # digits_of (nat (- i)) else digits_of (nat i))"

text \<open>
  The halfmove clock is an int after loading, and the source adds or subtracts
  \<^verbatim>\<open>0.5\<close>, which makes it a float. A float is kept as its exact value (the clocks are
  small multiples of a half).
\<close>

datatype pynum = PyInt int | PyFloat rat

fun num_val :: "pynum \<Rightarrow> rat" where
  "num_val (PyInt i) = of_int i"
| "num_val (PyFloat q) = q"

text \<open>\<^verbatim>\<open>x + 0.5\<close>, \<^verbatim>\<open>x - 0.5\<close>, \<^verbatim>\<open>x // 1\<close>, \<^verbatim>\<open>str(x)\<close> (for a float of integral value below
  \<^verbatim>\<open>1e16\<close>, the digits and \<^verbatim>\<open>.0\<close>).\<close>

definition num_add_half :: "pynum \<Rightarrow> pynum" where
  "num_add_half x = PyFloat (num_val x + 1 / 2)"

definition num_sub_half :: "pynum \<Rightarrow> pynum" where
  "num_sub_half x = PyFloat (num_val x - 1 / 2)"

fun num_floordiv1 :: "pynum \<Rightarrow> pynum" where
  "num_floordiv1 (PyInt i) = PyInt i"
| "num_floordiv1 (PyFloat q) = PyFloat (of_int (floor q))"

fun num_str :: "pynum \<Rightarrow> string" where
  "num_str (PyInt i) = py_str_int i"
| "num_str (PyFloat q) = py_str_int (floor q) @ ''.0''"

section \<open>Moves (\<^verbatim>\<open>modules/move.py\<close>)\<close>

record Move =
  start_row :: int
  start_col :: int
  end_row :: int
  end_col :: int
  piece_moved :: piece
  piece_captured :: piece
  is_check :: bool
  is_castling :: bool
  promoted_piece :: "string option"
  uci :: string
  san :: string

text \<open>\<^verbatim>\<open>Move.file_map\<close> and \<^verbatim>\<open>Move.rank_map\<close>; a missing key raises KeyError.\<close>

definition file_map :: "int \<Rightarrow> char option" where
  "file_map c = (if 0 \<le> c \<and> c \<le> 7 then Some (''abcdefgh'' ! nat c) else None)"

definition rank_map :: "int \<Rightarrow> char option" where
  "rank_map r = (if 0 \<le> r \<and> r \<le> 7 then Some (''87654321'' ! nat r) else None)"

definition coordinates_to_uci :: "int \<Rightarrow> int \<Rightarrow> int \<Rightarrow> int \<Rightarrow> string option \<Rightarrow> string option" where
  "coordinates_to_uci sr sc er ec promo =
     (case promo of
        Some p \<Rightarrow> do { a \<leftarrow> file_map sc; b \<leftarrow> file_map ec; c \<leftarrow> rank_map er;
                      Some ([a, b, c] @ ''='' @ p) }
      | None \<Rightarrow> do { a \<leftarrow> file_map sc; b \<leftarrow> rank_map sr; c \<leftarrow> file_map ec; d \<leftarrow> rank_map er;
                    Some [a, b, c, d] })"

text \<open>\<^verbatim>\<open>get_san\<close>. The strings it slices are the piece code (two characters) and the
  UCI string (four characters or more), so the slices never raise.\<close>

definition get_san :: "Move \<Rightarrow> string" where
  "get_san m =
     (let s =
        (if piece_moved m ! 1 = CHR ''p'' then
           (let s0 = (if promoted_piece m = None then drop 2 (uci m) else drop 1 (uci m))
            in if piece_captured m \<noteq> ''--'' \<or> start_col m \<noteq> end_col m
               then take 1 (uci m) @ ''x'' @ s0 else s0)
         else if is_castling m then
           (if start_col m < end_col m then ''O-O'' else ''O-O-O'')
         else
           (let s0 = piece_moved m ! 1 # drop 2 (uci m)
            in if piece_captured m \<noteq> ''--'' then take 1 s0 @ ''x'' @ drop 1 s0 else s0))
      in if is_check m then s @ ''+'' else s)"

text \<open>The constructor \<^verbatim>\<open>Move(board, coordinates, promoted_piece, is_castling)\<close> reads the
  two squares of the grid.\<close>

definition new_Move :: "piece list list \<Rightarrow> int \<times> int \<times> int \<times> int \<Rightarrow> string option \<Rightarrow> bool \<Rightarrow> Move option" where
  "new_Move g co promo castling =
     (case co of (sr, sc, er, ec) \<Rightarrow>
        do { pm \<leftarrow> grid_get g sr sc;
             pc \<leftarrow> grid_get g er ec;
             u \<leftarrow> coordinates_to_uci sr sc er ec promo;
             let m = \<lparr> start_row = sr, start_col = sc, end_row = er, end_col = ec,
                       piece_moved = pm, piece_captured = pc, is_check = False,
                       is_castling = castling, promoted_piece = promo, uci = u, san = [] \<rparr>;
             Some (m \<lparr> san := get_san m \<rparr>) })"

text \<open>\<^verbatim>\<open>Move.__eq__\<close> compares the UCI strings only.\<close>

definition move_eq :: "Move \<Rightarrow> Move \<Rightarrow> bool" where
  "move_eq a b = (uci a = uci b)"

section \<open>Python string operations used by the FEN codec\<close>

text \<open>\<^verbatim>\<open>sep.join(parts)\<close>.\<close>

fun py_join :: "string \<Rightarrow> string list \<Rightarrow> string" where
  "py_join sep [] = []"
| "py_join sep [x] = x"
| "py_join sep (x # y # ys) = x @ sep @ py_join sep (y # ys)"

text \<open>\<^verbatim>\<open>s.split(c)\<close> for a one-character separator: empty pieces are kept.\<close>

fun split_on :: "char \<Rightarrow> string \<Rightarrow> string list" where
  "split_on c [] = [[]]"
| "split_on c (x # xs) =
     (if x = c then [] # split_on c xs
      else (case split_on c xs of [] \<Rightarrow> [[x]] | w # ws \<Rightarrow> (x # w) # ws))"

text \<open>\<^verbatim>\<open>s.split()\<close>: runs of ASCII whitespace separate the words, no empty word is
  produced.\<close>

definition is_space :: "char \<Rightarrow> bool" where
  "is_space c = (let n = (of_char c :: nat) in (9 \<le> n \<and> n \<le> 13) \<or> (28 \<le> n \<and> n \<le> 32))"

fun split_ws_acc :: "string \<Rightarrow> string \<Rightarrow> string list" where
  "split_ws_acc [] w = (if w = [] then [] else [w])"
| "split_ws_acc (x # xs) w =
     (if is_space x then (if w = [] then split_ws_acc xs [] else w # split_ws_acc xs [])
      else split_ws_acc xs (w @ [x]))"

definition py_split :: "string \<Rightarrow> string list" where
  "py_split s = split_ws_acc s []"

definition is_digit :: "char \<Rightarrow> bool" where
  "is_digit c = (let n = (of_char c :: nat) in 48 \<le> n \<and> n \<le> 57)"

definition digit_val :: "char \<Rightarrow> nat" where
  "digit_val c = of_char c - 48"

text \<open>\<^verbatim>\<open>int(s)\<close> on an ASCII word: an optional sign, then digits, where single underscores
  may stand between digits; anything else raises ValueError.\<close>

fun int_body_ok :: "string \<Rightarrow> bool" where
  "int_body_ok [] = False"
| "int_body_ok [c] = is_digit c"
| "int_body_ok (c # d # cs) =
     (is_digit c \<and> (if d = CHR ''_'' then int_body_ok cs else int_body_ok (d # cs)))"

definition int_body_val :: "string \<Rightarrow> nat" where
  "int_body_val s = foldl (\<lambda>acc c. 10 * acc + digit_val c) 0 (filter is_digit s)"

definition py_int :: "string \<Rightarrow> int option" where
  "py_int s =
     (case s of
        [] \<Rightarrow> None
      | c # cs \<Rightarrow>
          if c = CHR ''-'' then (if int_body_ok cs then Some (- int (int_body_val cs)) else None)
          else if c = CHR ''+'' then (if int_body_ok cs then Some (int (int_body_val cs)) else None)
          else if int_body_ok s then Some (int (int_body_val s)) else None)"

section \<open>Castling rights (\<^verbatim>\<open>Board.Castling_Rights\<close>)\<close>

record Castling_Rights =
  castling_rights_string :: string
  castling_rights_log :: "string list"

definition new_Castling_Rights :: "string \<Rightarrow> Castling_Rights" where
  "new_Castling_Rights s = \<lparr> castling_rights_string = s, castling_rights_log = [s] \<rparr>"

text \<open>\<^verbatim>\<open>side in self.castling_rights_string\<close>, for the one-letter sides the board asks for.\<close>

definition has_rights :: "Castling_Rights \<Rightarrow> char \<Rightarrow> bool" where
  "has_rights cr side = (side \<in> set (castling_rights_string cr))"

text \<open>\<^verbatim>\<open>replace(side, '')\<close> for each side in turn.\<close>

definition remove_rights :: "Castling_Rights \<Rightarrow> char list \<Rightarrow> Castling_Rights" where
  "remove_rights cr sides =
     cr \<lparr> castling_rights_string :=
            foldl (\<lambda>s side. filter (\<lambda>c. c \<noteq> side) s) (castling_rights_string cr) sides \<rparr>"

definition update :: "Castling_Rights \<Rightarrow> Move \<Rightarrow> Castling_Rights" where
  "update cr move =
     (let cr1 =
        (if piece_moved move = ''wK'' then remove_rights cr ''KQ''
         else if piece_moved move = ''bK'' then remove_rights cr ''kq''
         else if piece_moved move = ''wR'' then
           (if start_col move = 7 then remove_rights cr ''K''
            else if start_col move = 0 then remove_rights cr ''Q'' else cr)
         else if piece_moved move = ''bR'' then
           (if start_col move = 7 then remove_rights cr ''k''
            else if start_col move = 0 then remove_rights cr ''q'' else cr)
         else cr)
      in cr1 \<lparr> castling_rights_log := castling_rights_log cr1 @ [castling_rights_string cr1] \<rparr>)"

definition undo_castling_rights :: "Castling_Rights \<Rightarrow> Castling_Rights" where
  "undo_castling_rights cr =
     (if castling_rights_log cr \<noteq> [] then
        (let lg = butlast (castling_rights_log cr)
         in if lg \<noteq> [] then \<lparr> castling_rights_string = last lg, castling_rights_log = lg \<rparr>
            else cr \<lparr> castling_rights_log := lg \<rparr>)
      else cr)"

text \<open>\<^verbatim>\<open>Castling_Rights.__str__\<close>.\<close>

definition cr_str :: "Castling_Rights \<Rightarrow> string" where
  "cr_str cr = (if castling_rights_string cr \<noteq> [] then castling_rights_string cr else ''-'')"

section \<open>The board and the FEN codec\<close>

record Board =
  board_array :: "piece list list"
  white_to_move :: bool
  castling_rights :: Castling_Rights
  en_passant_square :: "(int \<times> int) option"
  halfmove_clock :: pynum
  fullmove_number :: int
  move_log :: "Move list"
  fen_log :: "string list"
  white_king_pos :: "int \<times> int"
  black_king_pos :: "int \<times> int"
  is_checkmate :: bool
  is_draw :: bool
  legal_moves :: "Move list"

text \<open>\<^verbatim>\<open>fen_symbols.get(char, '--')\<close>: an unknown letter gives an empty square.\<close>

definition fen_symbols :: "char \<Rightarrow> piece" where
  "fen_symbols c =
     (if c = CHR ''r'' then ''bR'' else if c = CHR ''n'' then ''bN''
      else if c = CHR ''b'' then ''bB'' else if c = CHR ''q'' then ''bQ''
      else if c = CHR ''k'' then ''bK'' else if c = CHR ''p'' then ''bp''
      else if c = CHR ''R'' then ''wR'' else if c = CHR ''N'' then ''wN''
      else if c = CHR ''B'' then ''wB'' else if c = CHR ''Q'' then ''wQ''
      else if c = CHR ''K'' then ''wK'' else if c = CHR ''P'' then ''wp''
      else ''--'')"

definition fen_row_decode :: "string \<Rightarrow> piece list" where
  "fen_row_decode row =
     concat (map (\<lambda>c. if is_digit c then replicate (digit_val c) ''--'' else [fen_symbols c]) row)"

text \<open>The result tuple of \<^verbatim>\<open>fen_to_board\<close>.\<close>

record Fen_Result =
  fr_board :: "piece list list"
  fr_active_color :: bool
  fr_castling_rights :: Castling_Rights
  fr_en_passant_target :: "(int \<times> int) option"
  fr_halfmove_clock :: int
  fr_fullmove_number :: int

definition fen_to_board :: "string \<Rightarrow> Fen_Result option" where
  "fen_to_board fen =
     (let sections = py_split fen in
      do { piece_placement \<leftarrow> py_index sections 0;
           let rows = split_on CHR ''/'' piece_placement;
           let board = map fen_row_decode rows;
           s1 \<leftarrow> py_index sections 1;
           s2 \<leftarrow> py_index sections 2;
           s3 \<leftarrow> py_index sections 3;
           ep \<leftarrow> (if s3 = ''-'' then Some None
                  else do { d \<leftarrow> py_index s3 1; r \<leftarrow> py_int [d]; f \<leftarrow> py_index s3 0;
                            Some (Some (8 - r, int (of_char f) - 97)) });
           s4 \<leftarrow> py_index sections 4;
           hm \<leftarrow> py_int s4;
           s5 \<leftarrow> py_index sections 5;
           fm \<leftarrow> py_int s5;
           Some \<lparr> fr_board = board, fr_active_color = (s1 = ''w''),
                  fr_castling_rights = new_Castling_Rights s2, fr_en_passant_target = ep,
                  fr_halfmove_clock = hm, fr_fullmove_number = fm \<rparr> })"

text \<open>\<^verbatim>\<open>piece_to_fen[square]\<close>; a missing key raises KeyError.\<close>

definition piece_to_fen :: "piece \<Rightarrow> string option" where
  "piece_to_fen p =
     (if p = ''bR'' then Some ''r'' else if p = ''bN'' then Some ''n''
      else if p = ''bB'' then Some ''b'' else if p = ''bQ'' then Some ''q''
      else if p = ''bK'' then Some ''k'' else if p = ''bp'' then Some ''p''
      else if p = ''wR'' then Some ''R'' else if p = ''wN'' then Some ''N''
      else if p = ''wB'' then Some ''B'' else if p = ''wQ'' then Some ''Q''
      else if p = ''wK'' then Some ''K'' else if p = ''wp'' then Some ''P''
      else if p = ''--'' then Some [] else None)"

text \<open>The inner loop of \<^verbatim>\<open>board_to_fen\<close> over the squares of one row, with its two
  variables \<^verbatim>\<open>fen_row\<close> and \<^verbatim>\<open>empty_count\<close>.\<close>

fun fen_row_loop :: "piece list \<Rightarrow> string \<Rightarrow> int \<Rightarrow> string option" where
  "fen_row_loop [] fen_row empty_count =
     Some (if empty_count > 0 then fen_row @ py_str_int empty_count else fen_row)"
| "fen_row_loop (square # rest) fen_row empty_count =
     (if square = ''--'' then fen_row_loop rest fen_row (empty_count + 1)
      else do { ch \<leftarrow> piece_to_fen square;
                fen_row_loop rest
                  ((if empty_count > 0 then fen_row @ py_str_int empty_count else fen_row) @ ch) 0 })"

fun fen_rows :: "piece list list \<Rightarrow> string list option" where
  "fen_rows [] = Some []"
| "fen_rows (row # rest) =
     do { r \<leftarrow> fen_row_loop row [] 0; rs \<leftarrow> fen_rows rest; Some (r # rs) }"

definition board_to_fen :: "Board \<Rightarrow> string option" where
  "board_to_fen b =
     do { fen_pieces \<leftarrow> fen_rows (board_array b);
          let piece_placement = py_join ''/'' fen_pieces;
          let active_color = (if white_to_move b then ''w'' else ''b'');
          let cr = cr_str (castling_rights b);
          ep \<leftarrow> (case en_passant_square b of
                   Some (r, c) \<Rightarrow> do { f \<leftarrow> file_map c; k \<leftarrow> rank_map r; Some [f, k] }
                 | None \<Rightarrow> Some ''-'');
          Some (py_join '' '' [piece_placement, active_color, cr, ep,
                  num_str (num_floordiv1 (halfmove_clock b)), py_str_int (fullmove_number b)]) }"

text \<open>\<^verbatim>\<open>Board.__eq__\<close> compares the two FEN strings.\<close>

definition board_eq :: "Board \<Rightarrow> Board \<Rightarrow> bool option" where
  "board_eq a b = do { x \<leftarrow> board_to_fen a; y \<leftarrow> board_to_fen b; Some (x = y) }"

section \<open>Pseudo-legal move generation\<close>

text \<open>\<^verbatim>\<open>moves.append(Move(self, coordinates, ...))\<close>.\<close>

definition append_move :: "Board \<Rightarrow> int \<times> int \<times> int \<times> int \<Rightarrow> string option \<Rightarrow> bool \<Rightarrow> Move list \<Rightarrow> Move list option" where
  "append_move b co promo castling moves =
     do { m \<leftarrow> new_Move (board_array b) co promo castling; Some (moves @ [m]) }"

text \<open>A Python \<^verbatim>\<open>for\<close> loop whose body may raise: the body maps the loop state to the
  next one.\<close>

fun for_each :: "'a list \<Rightarrow> ('a \<Rightarrow> 's \<Rightarrow> 's option) \<Rightarrow> 's \<Rightarrow> 's option" where
  "for_each [] body s = Some s"
| "for_each (x # xs) body s = do { s' \<leftarrow> body x s; for_each xs body s' }"

definition promotion_pieces :: "string list" where
  "promotion_pieces = [''Q'', ''N'', ''R'', ''B'']"

definition in_board :: "int \<Rightarrow> bool" where
  "in_board x = (0 \<le> x \<and> x < 8)"

text \<open>\<^verbatim>\<open>get_pawn_moves\<close>, in three parts: the promotion test the source writes twice, the
  advance of one or two squares, and the capture towards one side.\<close>

definition pawn_promotes :: "char \<Rightarrow> int \<Rightarrow> bool" where
  "pawn_promotes color row = ((color = CHR ''w'' \<and> row - 1 = 0) \<or> (color = CHR ''b'' \<and> row + 1 = 7))"

definition append_pawn_move :: "Board \<Rightarrow> char \<Rightarrow> int \<times> int \<times> int \<times> int \<Rightarrow> Move list \<Rightarrow> Move list option" where
  "append_pawn_move b color co moves =
     (case co of (row, col, er, ec) \<Rightarrow>
        if pawn_promotes color row then
          for_each promotion_pieces (\<lambda>piece ms. append_move b co (Some piece) False ms) moves
        else append_move b co None False moves)"

definition pawn_forward :: "Board \<Rightarrow> int \<Rightarrow> int \<Rightarrow> char \<Rightarrow> int \<Rightarrow> Move list \<Rightarrow> Move list option" where
  "pawn_forward b row col color direction moves =
     (if 1 \<le> row + direction \<and> row + direction < 8 then
        do { ahead \<leftarrow> grid_get (board_array b) (row + direction) col;
             if ahead = ''--'' then
               do { ms \<leftarrow> append_pawn_move b color (row, col, row + direction, col) moves;
                    if (row = 6 \<and> color = CHR ''w'') \<or> (row = 1 \<and> color = CHR ''b'') then
                      do { ahead2 \<leftarrow> grid_get (board_array b) (row + 2 * direction) col;
                           if ahead2 = ''--''
                           then append_move b (row, col, row + 2 * direction, col) None False ms
                           else Some ms }
                    else Some ms }
             else Some moves }
      else Some moves)"

definition pawn_capture :: "Board \<Rightarrow> int \<Rightarrow> int \<Rightarrow> char \<Rightarrow> int \<Rightarrow> int \<Rightarrow> Move list \<Rightarrow> Move list option" where
  "pawn_capture b row col color direction d_col moves =
     (if in_board (col + d_col) \<and> in_board (row + direction) then
        do { target \<leftarrow> grid_get (board_array b) (row + direction) (col + d_col);
             if target ! 0 = (if color = CHR ''w'' then CHR ''b'' else CHR ''w'') then
               append_pawn_move b color (row, col, row + direction, col + d_col) moves
             else if Some (row + direction, col + d_col) = en_passant_square b then
               append_move b (row, col, row + direction, col + d_col) None False moves
             else Some moves }
      else Some moves)"

definition get_pawn_moves :: "Board \<Rightarrow> int \<Rightarrow> int \<Rightarrow> Move list \<Rightarrow> Move list option" where
  "get_pawn_moves b row col moves =
     do { pawn \<leftarrow> grid_get (board_array b) row col;
          let color = pawn ! 0;
          let direction = (if color = CHR ''w'' then - 1 else 1 :: int);
          moves1 \<leftarrow> pawn_forward b row col color direction moves;
          for_each [- 1, 1] (pawn_capture b row col color direction) moves1 }"

text \<open>
  The \<^verbatim>\<open>while\<close> loop of the rook and bishop generators along one direction
  \<open>(dr, dc)\<close>, from the square \<open>(r, c)\<close>. The source runs it for its eight fixed
  direction vectors only; the loop below also stops for the null vector, on which the
  source's loop would not advance.
\<close>

function slide :: "Board \<Rightarrow> int \<Rightarrow> int \<Rightarrow> int \<Rightarrow> int \<Rightarrow> int \<Rightarrow> int \<Rightarrow> Move list \<Rightarrow> Move list option" where
  "slide b row col dr dc r c moves =
     (if in_board r \<and> in_board c \<and> (dr \<noteq> 0 \<or> dc \<noteq> 0) then
        do { target \<leftarrow> grid_get (board_array b) r c;
             if target = ''--'' then
               do { ms \<leftarrow> append_move b (row, col, r, c) None False moves;
                    slide b row col dr dc (r + dr) (c + dc) ms }
             else
               do { own \<leftarrow> grid_get (board_array b) row col;
                    if target ! 0 \<noteq> own ! 0 then append_move b (row, col, r, c) None False moves
                    else Some moves } }
      else Some moves)"
  by pat_completeness auto
termination
  by (relation "measure (\<lambda>(b, row, col, dr, dc, r, c, moves).
        if dr > 0 then nat (8 - r) else if dr < 0 then nat (r + 1)
        else if dc > 0 then nat (8 - c) else nat (c + 1))")
     (auto simp: in_board_def)

definition slide_all :: "(int \<times> int) list \<Rightarrow> Board \<Rightarrow> int \<Rightarrow> int \<Rightarrow> Move list \<Rightarrow> Move list option" where
  "slide_all directions b row col moves =
     for_each directions (\<lambda>(dr, dc) ms. slide b row col dr dc (row + dr) (col + dc) ms) moves"

definition get_rook_moves :: "Board \<Rightarrow> int \<Rightarrow> int \<Rightarrow> Move list \<Rightarrow> Move list option" where
  "get_rook_moves = slide_all [(1, 0), (- 1, 0), (0, 1), (0, - 1)]"

definition get_bishop_moves :: "Board \<Rightarrow> int \<Rightarrow> int \<Rightarrow> Move list \<Rightarrow> Move list option" where
  "get_bishop_moves = slide_all [(1, 1), (- 1, 1), (1, - 1), (- 1, - 1)]"

definition get_queen_moves :: "Board \<Rightarrow> int \<Rightarrow> int \<Rightarrow> Move list \<Rightarrow> Move list option" where
  "get_queen_moves b row col moves =
     do { ms \<leftarrow> get_rook_moves b row col moves; get_bishop_moves b row col ms }"

text \<open>The knight and the king step once along each of their offsets.\<close>

definition step_to :: "Board \<Rightarrow> int \<Rightarrow> int \<Rightarrow> int \<times> int \<Rightarrow> Move list \<Rightarrow> Move list option" where
  "step_to b row col offset moves =
     (case offset of (dr, dc) \<Rightarrow>
        let r = row + dr; c = col + dc in
        if in_board r \<and> in_board c then
          do { target \<leftarrow> grid_get (board_array b) r c;
               if target = ''--'' then append_move b (row, col, r, c) None False moves
               else do { own \<leftarrow> grid_get (board_array b) row col;
                         if target ! 0 \<noteq> own ! 0 then append_move b (row, col, r, c) None False moves
                         else Some moves } }
        else Some moves)"

definition step_all :: "(int \<times> int) list \<Rightarrow> Board \<Rightarrow> int \<Rightarrow> int \<Rightarrow> Move list \<Rightarrow> Move list option" where
  "step_all offsets b row col moves = for_each offsets (step_to b row col) moves"

definition get_knight_moves :: "Board \<Rightarrow> int \<Rightarrow> int \<Rightarrow> Move list \<Rightarrow> Move list option" where
  "get_knight_moves =
     step_all [(2, 1), (2, - 1), (- 2, 1), (- 2, - 1), (1, 2), (1, - 2), (- 1, 2), (- 1, - 2)]"

definition get_king_moves :: "Board \<Rightarrow> int \<Rightarrow> int \<Rightarrow> Move list \<Rightarrow> Move list option" where
  "get_king_moves =
     step_all [(1, 0), (- 1, 0), (0, 1), (0, - 1), (1, 1), (1, - 1), (- 1, 1), (- 1, - 1)]"

text \<open>\<^verbatim>\<open>self.moveFunctions[piece_type]\<close>; a piece type outside the dictionary raises
  KeyError.\<close>

definition moveFunctions :: "char \<Rightarrow> (Board \<Rightarrow> int \<Rightarrow> int \<Rightarrow> Move list \<Rightarrow> Move list option) option" where
  "moveFunctions t =
     (if t = CHR ''p'' then Some get_pawn_moves else if t = CHR ''R'' then Some get_rook_moves
      else if t = CHR ''N'' then Some get_knight_moves else if t = CHR ''B'' then Some get_bishop_moves
      else if t = CHR ''Q'' then Some get_queen_moves else if t = CHR ''K'' then Some get_king_moves
      else None)"

definition squares :: "(int \<times> int) list" where
  "squares = concat (map (\<lambda>row. map (\<lambda>col. (row, col)) [0, 1, 2, 3, 4, 5, 6, 7]) [0, 1, 2, 3, 4, 5, 6, 7])"

definition scan_square :: "Board \<Rightarrow> int \<times> int \<Rightarrow> Move list \<Rightarrow> Move list option" where
  "scan_square b sq moves =
     (case sq of (row, col) \<Rightarrow>
        do { piece \<leftarrow> grid_get (board_array b) row col;
             if piece \<noteq> ''--'' then
               (let color = piece ! 0; piece_type = piece ! 1 in
                if (color = CHR ''w'' \<and> white_to_move b) \<or> (color = CHR ''b'' \<and> \<not> white_to_move b)
                then do { gen \<leftarrow> moveFunctions piece_type; gen b row col moves }
                else Some moves)
             else Some moves })"

definition get_psuedo_legal_moves :: "Board \<Rightarrow> Move list option" where
  "get_psuedo_legal_moves b = for_each squares (scan_square b) []"

text \<open>\<^verbatim>\<open>square_under_attack\<close> flips the side to move, generates the opponent's
  pseudo-legal moves and flips the side back, so the board it leaves is the board it
  got.\<close>

definition square_under_attack :: "Board \<Rightarrow> int \<Rightarrow> int \<Rightarrow> bool option" where
  "square_under_attack b row col =
     do { opponent_moves \<leftarrow> get_psuedo_legal_moves (b \<lparr> white_to_move := \<not> white_to_move b \<rparr>);
          Some (list_ex (\<lambda>move. end_row move = row \<and> end_col move = col) opponent_moves) }"

definition in_check :: "Board \<Rightarrow> bool option" where
  "in_check b =
     (if white_to_move b then square_under_attack b (fst (white_king_pos b)) (snd (white_king_pos b))
      else square_under_attack b (fst (black_king_pos b)) (snd (black_king_pos b)))"

text \<open>\<^verbatim>\<open>get_castling_moves\<close>. Its two \<^verbatim>\<open>if\<close> statements differ in the letters and in
  the sign of the column offsets \<open>d1\<close> and \<open>d2\<close> only.\<close>

definition castle_side :: "Board \<Rightarrow> int \<Rightarrow> int \<Rightarrow> char \<Rightarrow> char \<Rightarrow> int \<Rightarrow> int \<Rightarrow> Move list \<Rightarrow> Move list option" where
  "castle_side b row col white_side black_side d1 d2 moves =
     (if (white_to_move b \<and> has_rights (castling_rights b) white_side) \<or>
         (\<not> white_to_move b \<and> has_rights (castling_rights b) black_side) then
        do { s1 \<leftarrow> grid_get (board_array b) row (col + d1);
             s2 \<leftarrow> grid_get (board_array b) row (col + d2);
             if s1 = s2 \<and> s2 = ''--'' then
               do { a1 \<leftarrow> square_under_attack b row (col + d1);
                    if a1 then Some moves
                    else do { a2 \<leftarrow> square_under_attack b row (col + d2);
                              if a2 then Some moves
                              else append_move b (row, col, row, col + d2) None True moves } }
             else Some moves }
      else Some moves)"

definition get_castling_moves :: "Board \<Rightarrow> int \<Rightarrow> int \<Rightarrow> Move list \<Rightarrow> Move list option" where
  "get_castling_moves b row col moves =
     do { chk \<leftarrow> in_check b;
          if chk then Some moves
          else do { moves1 \<leftarrow> castle_side b row col CHR ''K'' CHR ''k'' 1 2 moves;
                    castle_side b row col CHR ''Q'' CHR ''q'' (- 1) (- 2) moves1 } }"

section \<open>Making and undoing moves\<close>

text \<open>\<^verbatim>\<open>get_king_locations\<close> scans the grid row by row and returns as soon as both kings
  have been seen; when the scan ends without both, the source calls \<^verbatim>\<open>sys.exit()\<close>,
  which is the result \<open>None\<close>.\<close>

definition cells :: "piece list list \<Rightarrow> (int \<times> int \<times> piece) list" where
  "cells g =
     concat (map (\<lambda>(r, row). map (\<lambda>(c, p). (int r, int c, p)) (enumerate 0 row)) (enumerate 0 g))"

fun king_scan :: "(int \<times> int \<times> piece) list \<Rightarrow> (int \<times> int) option \<Rightarrow> (int \<times> int) option \<Rightarrow> ((int \<times> int) \<times> (int \<times> int)) option" where
  "king_scan [] wk bk = None"
| "king_scan ((r, c, p) # rest) wk bk =
     (if p = ''wK'' then
        (case bk of Some k \<Rightarrow> Some ((r, c), k) | None \<Rightarrow> king_scan rest (Some (r, c)) bk)
      else if p = ''bK'' then
        (case wk of Some k \<Rightarrow> Some (k, (r, c)) | None \<Rightarrow> king_scan rest wk (Some (r, c)))
      else king_scan rest wk bk)"

definition get_king_locations :: "piece list list \<Rightarrow> ((int \<times> int) \<times> (int \<times> int)) option" where
  "get_king_locations g = king_scan (cells g) None None"

text \<open>The rook's relocation when castling, shared by making and undoing: the square at
  column \<open>src\<close> is copied to column \<open>dst\<close> and then emptied. An IndexError leaves the
  grid as far as it got; the flag tells whether both assignments were done.\<close>

definition relocate :: "piece list list \<Rightarrow> int \<Rightarrow> int \<Rightarrow> int \<Rightarrow> piece list list \<times> bool" where
  "relocate g row dst src =
     (case grid_get g row src of
        None \<Rightarrow> (g, False)
      | Some rook \<Rightarrow>
          (case grid_set g row dst rook of
             None \<Rightarrow> (g, False)
           | Some g1 \<Rightarrow>
               (case grid_set g1 row src ''--'' of
                  None \<Rightarrow> (g1, False)
                | Some g2 \<Rightarrow> (g2, True))))"

text \<open>
  \<^verbatim>\<open>_make_psuedo_legal_move\<close>. Its body is inside \<^verbatim>\<open>try: ... except Exception\<close>: an
  IndexError ends the body and leaves the board as the statements before it made it,
  which is the result \<open>Some\<close> of that board. Only \<^verbatim>\<open>sys.exit()\<close> of
  \<^verbatim>\<open>get_king_locations\<close> leaves the function abnormally (\<open>None\<close>). The second
  definition is the part of the body after the king positions are updated.
\<close>

definition make_tail :: "Board \<Rightarrow> Move \<Rightarrow> Board" where
  "make_tail b move =
     (case (case promoted_piece move of
              None \<Rightarrow> Some (board_array b)
            | Some p \<Rightarrow> grid_set (board_array b) (end_row move) (end_col move) (piece_moved move ! 0 # p)) of
        None \<Rightarrow> b
      | Some g \<Rightarrow>
          (let b1 = b \<lparr> board_array := g, castling_rights := update (castling_rights b) move \<rparr> in
           if is_castling move then
             (if end_col move > start_col move then
                b1 \<lparr> board_array := fst (relocate g (end_row move) (end_col move - 1) (end_col move + 1)) \<rparr>
              else if end_col move < start_col move then
                b1 \<lparr> board_array := fst (relocate g (end_row move) (end_col move + 1) (end_col move - 2)) \<rparr>
              else b1)
           else b1))"

definition make_psuedo_legal_move :: "Board \<Rightarrow> Move \<Rightarrow> Board option" where
  "make_psuedo_legal_move b move =
     (let b1 = b \<lparr> move_log := move_log b @ [move], white_to_move := \<not> white_to_move b \<rparr>;
          b2 = b1 \<lparr> fullmove_number := fullmove_number b1 + (if white_to_move b1 then 1 else 0) \<rparr>;
          pm = piece_moved move
      in case (if pm ! 1 = CHR ''p'' \<and> start_col move \<noteq> end_col move \<and> piece_captured move = ''--''
               then grid_set (board_array b2)
                      (end_row move + (if pm ! 0 = CHR ''w'' then 1 else - 1)) (end_col move) ''--''
               else Some (board_array b2)) of
           None \<Rightarrow> Some b2
         | Some g3 \<Rightarrow>
             (case grid_set g3 (start_row move) (start_col move) ''--'' of
                None \<Rightarrow> Some (b2 \<lparr> board_array := g3 \<rparr>)
              | Some g4 \<Rightarrow>
                  (case grid_set g4 (end_row move) (end_col move) pm of
                     None \<Rightarrow> Some (b2 \<lparr> board_array := g4 \<rparr>)
                   | Some g5 \<Rightarrow>
                       (case get_king_locations g5 of
                          None \<Rightarrow> None
                        | Some (wk, bk) \<Rightarrow>
                            Some (make_tail
                                    (b2 \<lparr> board_array := g5, white_king_pos := wk, black_king_pos := bk \<rparr>)
                                    move)))))"

text \<open>
  \<^verbatim>\<open>undo_move(in_engine)\<close> without its last two statements (popping the position log
  and regenerating the legal moves), for a board whose move log is not empty. Nothing
  catches an exception here.
\<close>

definition undo_move_body :: "Board \<Rightarrow> bool \<Rightarrow> Board option" where
  "undo_move_body b in_engine =
     (let move = last (move_log b);
          pm = piece_moved move;
          hm = (if num_val (halfmove_clock b) \<noteq> 0 \<and> \<not> in_engine
                then num_sub_half (halfmove_clock b) else halfmove_clock b)
      in do { g1 \<leftarrow> grid_set (board_array b) (start_row move) (start_col move) pm;
              g2 \<leftarrow> grid_set g1 (end_row move) (end_col move) (piece_captured move);
              (wk, bk) \<leftarrow> get_king_locations g2;
              (ep, g3) \<leftarrow>
                (if pm ! 1 = CHR ''p'' \<and> \<bar>start_row move - end_row move\<bar> = 2 then
                   (if start_col move \<noteq> end_col move \<and> piece_captured move = ''--'' then
                      do { g \<leftarrow> grid_set g2 (end_row move + (if pm ! 0 = CHR ''w'' then 1 else - 1))
                                   (end_col move)
                                   ((if pm ! 0 = CHR ''b'' then ''w'' else ''b'') @ ''p'');
                           Some (Some (end_row move, end_col move), g) }
                    else Some (Some (end_row move, end_col move), g2))
                 else Some (None, g2));
              g4 \<leftarrow>
                (if is_castling move then
                   (if end_col move > start_col move then
                      (case relocate g3 (end_row move) (end_col move + 1) (end_col move - 1) of
                         (g, ok) \<Rightarrow> if ok then Some g else None)
                    else if end_col move < start_col move then
                      (case relocate g3 (end_row move) (end_col move - 2) (end_col move + 1) of
                         (g, ok) \<Rightarrow> if ok then Some g else None)
                    else Some g3)
                 else Some g3);
              Some (b \<lparr> move_log := butlast (move_log b),
                        fullmove_number := fullmove_number b - (if white_to_move b then 1 else 0),
                        halfmove_clock := hm,
                        board_array := g4,
                        white_to_move := \<not> white_to_move b,
                        is_checkmate := False,
                        is_draw := False,
                        white_king_pos := wk,
                        black_king_pos := bk,
                        castling_rights := undo_castling_rights (castling_rights b),
                        en_passant_square := ep \<rparr>) })"

text \<open>\<^verbatim>\<open>undo_move(True)\<close>, the undo used while filtering.\<close>

definition undo_move_engine :: "Board \<Rightarrow> Board option" where
  "undo_move_engine b = (if move_log b \<noteq> [] then undo_move_body b True else Some b)"

section \<open>Legal moves\<close>

text \<open>
  The filtering loop of \<^verbatim>\<open>get_legal_moves\<close> runs over the indices from the last to the
  first: the tail of the list is filtered before its head. It returns the moves kept and
  the board the loop leaves.
\<close>

fun legal_filter :: "Board \<Rightarrow> Move list \<Rightarrow> (Move list \<times> Board) option" where
  "legal_filter b [] = Some ([], b)"
| "legal_filter b (m # ms) =
     do { (kept, b1) \<leftarrow> legal_filter b ms;
          b2 \<leftarrow> make_psuedo_legal_move b1 m;
          let b3 = b2 \<lparr> white_to_move := \<not> white_to_move b2 \<rparr>;
          chk \<leftarrow> in_check b3;
          let b4 = b3 \<lparr> white_to_move := \<not> white_to_move b3 \<rparr>;
          b5 \<leftarrow> undo_move_engine b4;
          Some (if chk then kept else m # kept, b5) }"

text \<open>\<^verbatim>\<open>update_is_check\<close>, the inner function of \<^verbatim>\<open>get_legal_moves\<close>.\<close>

fun update_is_check :: "Board \<Rightarrow> Move list \<Rightarrow> (Move list \<times> Board) option" where
  "update_is_check b [] = Some ([], b)"
| "update_is_check b (m # ms) =
     do { b1 \<leftarrow> make_psuedo_legal_move b m;
          chk \<leftarrow> in_check b1;
          let m1 = m \<lparr> is_check := chk \<rparr>;
          let m2 = m1 \<lparr> san := get_san m1 \<rparr>;
          b2 \<leftarrow> undo_move_engine b1;
          (rest, b3) \<leftarrow> update_is_check b2 ms;
          Some (m2 # rest, b3) }"

definition get_legal_moves :: "Board \<Rightarrow> (Move list \<times> Board) option" where
  "get_legal_moves b =
     do { moves \<leftarrow> get_psuedo_legal_moves b;
          let active_king_pos = (if white_to_move b then white_king_pos b else black_king_pos b);
          moves1 \<leftarrow> get_castling_moves b (fst active_king_pos) (snd active_king_pos) moves;
          (moves2, b1) \<leftarrow> legal_filter b moves1;
          update_is_check b1 moves2 }"

section \<open>The public operations\<close>

definition update_en_passant_square :: "Board \<Rightarrow> Move \<Rightarrow> Board option" where
  "update_en_passant_square b move =
     (let pm = piece_moved move in
      if pm ! 1 = CHR ''p'' \<and> \<bar>start_row move - end_row move\<bar> = 2 then
        do { found \<leftarrow>
               for_each [end_col move + 1, end_col move - 1]
                 (\<lambda>col found.
                    if found then Some True
                    else if 0 \<le> end_row move \<and> end_row move < int (length (board_array b)) then
                      do { row0 \<leftarrow> py_index (board_array b) 0;
                           if 0 \<le> col \<and> col < int (length row0) then
                             do { p \<leftarrow> grid_get (board_array b) (end_row move) col;
                                  Some (p ! 0 \<noteq> pm ! 0 \<and> p ! 1 = CHR ''p'') }
                           else Some False }
                    else Some False)
                 False;
             Some (b \<lparr> en_passant_square :=
                         (if found then Some (end_row move + (if pm ! 0 = CHR ''w'' then 1 else - 1), start_col move)
                          else None) \<rparr>) }
      else Some (b \<lparr> en_passant_square := None \<rparr>))"

definition remove_extra_details :: "string \<Rightarrow> string" where
  "remove_extra_details fen =
     (let parts = py_split fen in py_join '' '' (if length parts \<ge> 6 then take 4 parts else parts))"

text \<open>The condition of \<^verbatim>\<open>make_legal_move\<close>: \<^verbatim>\<open>move in self.legal_moves and not
  self.is_checkmate and self.is_draw == False\<close>.\<close>

definition accepted :: "Board \<Rightarrow> Move \<Rightarrow> bool" where
  "accepted b move = (list_ex (move_eq move) (legal_moves b) \<and> \<not> is_checkmate b \<and> is_draw b = False)"

text \<open>The new value of the halfmove clock, as line 423 of the source computes it.\<close>

definition new_halfmove_clock :: "pynum \<Rightarrow> Move \<Rightarrow> pynum" where
  "new_halfmove_clock hm move =
     (if piece_moved move ! 1 \<noteq> CHR ''p'' \<and> piece_captured move = ''--'' \<and>
         (piece_moved move = ''p'' \<and> start_col move = end_col move)
      then num_add_half hm else PyInt 0)"

definition make_legal_move :: "Board \<Rightarrow> Move \<Rightarrow> Board option" where
  "make_legal_move b move0 =
     (if accepted b move0 then
        do { move \<leftarrow> find (move_eq move0) (legal_moves b);
             b1 \<leftarrow> make_psuedo_legal_move b move;
             fen \<leftarrow> board_to_fen b1;
             let b2 = b1 \<lparr> fen_log := fen_log b1 @ [remove_extra_details fen] \<rparr>;
             b3 \<leftarrow> update_en_passant_square b2 move;
             let b4 = b3 \<lparr> halfmove_clock := new_halfmove_clock (halfmove_clock b3) move \<rparr>;
             (moves, b5) \<leftarrow> get_legal_moves b4;
             let b6 = b5 \<lparr> legal_moves := moves \<rparr>;
             if moves = [] then
               do { chk \<leftarrow> in_check b6;
                    if chk then
                      do { lst \<leftarrow> py_index (move_log b6) (- 1);
                           Some (b6 \<lparr> is_checkmate := True,
                                      move_log := butlast (move_log b6) @ [lst \<lparr> san := butlast (san lst) @ ''#'' \<rparr>] \<rparr>) }
                    else Some (b6 \<lparr> is_draw := True \<rparr>) }
             else if num_val (halfmove_clock b6) = 50 \<or>
                     list_ex (\<lambda>x. count_list (fen_log b6) x \<ge> 3) (fen_log b6)
             then Some (b6 \<lparr> is_draw := True \<rparr>)
             else Some b6 }
      else Some b)"

text \<open>
  \<^verbatim>\<open>make_legal_move\<close> has no \<^verbatim>\<open>return\<close> statement and raises nothing of its own, so a
  call evaluates to \<^verbatim>\<open>None\<close> on every path. \<open>make_legal_move_call\<close> is the call as
  the caller sees it: the value returned together with the board the call leaves.
\<close>

datatype py_value = PyNone | PyBool bool | PyStr string


definition undo_move :: "Board \<Rightarrow> bool \<Rightarrow> Board option" where
  "undo_move b in_engine =
     (if move_log b \<noteq> [] then
        do { b1 \<leftarrow> undo_move_body b in_engine;
             if \<not> in_engine then
               (if fen_log b1 = [] then None
                else do { (moves, b2) \<leftarrow> get_legal_moves (b1 \<lparr> fen_log := butlast (fen_log b1) \<rparr>);
                          Some (b2 \<lparr> legal_moves := moves \<rparr>) })
             else Some b1 }
      else Some b)"

text \<open>\<^verbatim>\<open>s.rfind(c)\<close> and \<^verbatim>\<open>s[:k]\<close>, for the first entry of the position log.\<close>

definition py_rfind :: "char \<Rightarrow> string \<Rightarrow> int" where
  "py_rfind c s = (case filter (\<lambda>i. s ! i = c) (rev [0..<length s]) of [] \<Rightarrow> - 1 | i # _ \<Rightarrow> int i)"

definition py_take :: "string \<Rightarrow> int \<Rightarrow> string" where
  "py_take s k = (if k < 0 then take (nat (int (length s) + k)) s else take (nat k) s)"

text \<open>\<^verbatim>\<open>Board.__init__\<close>.\<close>

definition new_Board :: "string \<Rightarrow> Board option" where
  "new_Board fen =
     do { result \<leftarrow> fen_to_board fen;
          let b0 = \<lparr> board_array = fr_board result, white_to_move = fr_active_color result,
                     castling_rights = fr_castling_rights result,
                     en_passant_square = fr_en_passant_target result,
                     halfmove_clock = PyInt (fr_halfmove_clock result),
                     fullmove_number = fr_fullmove_number result,
                     move_log = [], fen_log = [], white_king_pos = (0, 0), black_king_pos = (0, 0),
                     is_checkmate = False, is_draw = False, legal_moves = [] \<rparr>;
          f \<leftarrow> board_to_fen b0;
          let b1 = b0 \<lparr> fen_log := [py_take f (py_rfind CHR '' '' (py_take f (py_rfind CHR '' '' f)))] \<rparr>;
          (wk, bk) \<leftarrow> get_king_locations (board_array b1);
          let b2 = b1 \<lparr> white_king_pos := wk, black_king_pos := bk \<rparr>;
          (moves, b3) \<leftarrow> get_legal_moves b2;
          Some (b3 \<lparr> legal_moves := moves \<rparr>) }"

section \<open>Example positions\<close>

text \<open>The default argument of \<^verbatim>\<open>Board.__init__\<close>, and the boards the source builds from
  a few small positions; the lemmas below check each of them against \<^verbatim>\<open>new_Board\<close>.\<close>

definition initial_fen :: string where
  "initial_fen = ''rnbqkbnr/pppppppp/8/8/8/8/PPPPPPPP/RNBQKBNR w KQkq - 0 1''"

definition kings_fen :: string where "kings_fen = ''4k3/8/8/8/8/8/8/4K3 w - - 5 10''"

definition empty_row :: "piece list" where
  "empty_row = [''--'', ''--'', ''--'', ''--'', ''--'', ''--'', ''--'', ''--'']"

definition quiet_move :: "int \<Rightarrow> int \<Rightarrow> int \<Rightarrow> int \<Rightarrow> piece \<Rightarrow> string \<Rightarrow> string \<Rightarrow> Move" where
  "quiet_move sr sc er ec pm u s =
     \<lparr> start_row = sr, start_col = sc, end_row = er, end_col = ec, piece_moved = pm,
       piece_captured = ''--'', is_check = False, is_castling = False, promoted_piece = None,
       uci = u, san = s \<rparr>"

definition kings_board :: Board where
  "kings_board =
     \<lparr> board_array =
         [[''--'', ''--'', ''--'', ''--'', ''bK'', ''--'', ''--'', ''--''],
          empty_row, empty_row, empty_row, empty_row, empty_row, empty_row,
          [''--'', ''--'', ''--'', ''--'', ''wK'', ''--'', ''--'', ''--'']],
       white_to_move = True,
       castling_rights = \<lparr> castling_rights_string = ''-'', castling_rights_log = [''-''] \<rparr>,
       en_passant_square = None, halfmove_clock = PyInt 5, fullmove_number = 10,
       move_log = [], fen_log = [''4k3/8/8/8/8/8/8/4K3 w - -''],
       white_king_pos = (7, 4), black_king_pos = (0, 4), is_checkmate = False, is_draw = False,
       legal_moves =
         [quiet_move 7 4 6 4 ''wK'' ''e1e2'' ''Ke2'', quiet_move 7 4 7 5 ''wK'' ''e1f1'' ''Kf1'',
          quiet_move 7 4 7 3 ''wK'' ''e1d1'' ''Kd1'', quiet_move 7 4 6 5 ''wK'' ''e1f2'' ''Kf2'',
          quiet_move 7 4 6 3 ''wK'' ''e1d2'' ''Kd2''] \<rparr>"

text \<open>The kings-only board after White's \<^verbatim>\<open>Kd1\<close>.\<close>

definition kings_after :: Board where
  "kings_after =
     \<lparr> board_array =
         [[''--'', ''--'', ''--'', ''--'', ''bK'', ''--'', ''--'', ''--''],
          empty_row, empty_row, empty_row, empty_row, empty_row, empty_row,
          [''--'', ''--'', ''--'', ''wK'', ''--'', ''--'', ''--'', ''--'']],
       white_to_move = False,
       castling_rights = \<lparr> castling_rights_string = ''-'', castling_rights_log = [''-'', ''-''] \<rparr>,
       en_passant_square = None, halfmove_clock = PyInt 0, fullmove_number = 10,
       move_log = [quiet_move 7 4 7 3 ''wK'' ''e1d1'' ''Kd1''],
       fen_log = [''4k3/8/8/8/8/8/8/4K3 w - -'', ''4k3/8/8/8/8/8/8/3K4 b - -''],
       white_king_pos = (7, 3), black_king_pos = (0, 4), is_checkmate = False, is_draw = False,
       legal_moves =
         [quiet_move 0 4 1 4 ''bK'' ''e8e7'' ''Ke7'', quiet_move 0 4 0 5 ''bK'' ''e8f8'' ''Kf8'',
          quiet_move 0 4 0 3 ''bK'' ''e8d8'' ''Kd8'', quiet_move 0 4 1 5 ''bK'' ''e8f7'' ''Kf7'',
          quiet_move 0 4 1 3 ''bK'' ''e8d7'' ''Kd7''] \<rparr>"

text \<open>White may castle queenside by the rights field, and a white knight stands on b1.\<close>

definition castle_fen :: string where "castle_fen = ''4k3/8/8/8/8/8/8/RN2K3 w Q - 0 1''"

definition queenside_castle :: Move where
  "queenside_castle =
     \<lparr> start_row = 7, start_col = 4, end_row = 7, end_col = 2, piece_moved = ''wK'',
       piece_captured = ''--'', is_check = False, is_castling = True, promoted_piece = None,
       uci = ''e1c1'', san = ''O-O-O'' \<rparr>"

definition castle_board :: Board where
  "castle_board =
     \<lparr> board_array =
         [[''--'', ''--'', ''--'', ''--'', ''bK'', ''--'', ''--'', ''--''],
          empty_row, empty_row, empty_row, empty_row, empty_row, empty_row,
          [''wR'', ''wN'', ''--'', ''--'', ''wK'', ''--'', ''--'', ''--'']],
       white_to_move = True,
       castling_rights = \<lparr> castling_rights_string = ''Q'', castling_rights_log = [''Q''] \<rparr>,
       en_passant_square = None, halfmove_clock = PyInt 0, fullmove_number = 1,
       move_log = [], fen_log = [''4k3/8/8/8/8/8/8/RN2K3 w Q -''],
       white_king_pos = (7, 4), black_king_pos = (0, 4), is_checkmate = False, is_draw = False,
       legal_moves =
         [quiet_move 7 0 6 0 ''wR'' ''a1a2'' ''Ra2'', quiet_move 7 0 5 0 ''wR'' ''a1a3'' ''Ra3'',
          quiet_move 7 0 4 0 ''wR'' ''a1a4'' ''Ra4'', quiet_move 7 0 3 0 ''wR'' ''a1a5'' ''Ra5'',
          quiet_move 7 0 2 0 ''wR'' ''a1a6'' ''Ra6'', quiet_move 7 0 1 0 ''wR'' ''a1a7'' ''Ra7'',
          (quiet_move 7 0 0 0 ''wR'' ''a1a8'' ''Ra8+'') \<lparr> is_check := True \<rparr>,
          quiet_move 7 1 5 2 ''wN'' ''b1c3'' ''Nc3'', quiet_move 7 1 5 0 ''wN'' ''b1a3'' ''Na3'',
          quiet_move 7 1 6 3 ''wN'' ''b1d2'' ''Nd2'',
          quiet_move 7 4 6 4 ''wK'' ''e1e2'' ''Ke2'', quiet_move 7 4 7 5 ''wK'' ''e1f1'' ''Kf1'',
          quiet_move 7 4 7 3 ''wK'' ''e1d1'' ''Kd1'', quiet_move 7 4 6 5 ''wK'' ''e1f2'' ''Kf2'',
          quiet_move 7 4 6 3 ''wK'' ''e1d2'' ''Kd2'', queenside_castle] \<rparr>"


section \<open>Well-formed grids and moves\<close>

text \<open>The thirteen piece codes of \<^verbatim>\<open>fen_symbols\<close> and \<^verbatim>\<open>piece_to_fen\<close>. A grid is well formed
  when the sixty-four squares the generators scan exist and every square holds one of the
  codes.\<close>

definition valid_piece :: "piece \<Rightarrow> bool" where
  "valid_piece p = (p \<in> set [''bR'', ''bN'', ''bB'', ''bQ'', ''bK'', ''bp'',
                              ''wR'', ''wN'', ''wB'', ''wQ'', ''wK'', ''wp'', ''--''])"

definition wf_grid :: "piece list list \<Rightarrow> bool" where
  "wf_grid g = (8 \<le> length g \<and> list_all (\<lambda>row. 8 \<le> length row) (take 8 g) \<and>
                list_all (list_all valid_piece) g)"

text \<open>A promotion is requested only for a pawn of one of the two colours; \<open>gen_new\<close> says that
  a property holds of every move the constructor returns on this board.\<close>

definition promo_ok :: "piece list list \<Rightarrow> int \<times> int \<times> int \<times> int \<Rightarrow> string option \<Rightarrow> bool" where
  "promo_ok g co promo =
     (case promo of
        None \<Rightarrow> True
      | Some p \<Rightarrow> p \<in> set promotion_pieces \<and>
          (case co of (sr, sc, er, ec) \<Rightarrow>
             (case grid_get g sr sc of
                None \<Rightarrow> False
              | Some pawn \<Rightarrow> pawn ! 0 = CHR ''w'' \<or> pawn ! 0 = CHR ''b'')))"

definition gen_new :: "Board \<Rightarrow> bool \<Rightarrow> (Move \<Rightarrow> bool) \<Rightarrow> bool" where
  "gen_new b castling P =
     (\<forall>co promo m. new_Move (board_array b) co promo castling = Some m \<longrightarrow>
                    promo_ok (board_array b) co promo \<longrightarrow> P m)"

text \<open>A move whose piece codes can be written back to a well-formed grid.\<close>

definition move_ok :: "Move \<Rightarrow> bool" where
  "move_ok m =
     (valid_piece (piece_moved m) \<and> valid_piece (piece_captured m) \<and>
      (case promoted_piece m of
         None \<Rightarrow> True
       | Some p \<Rightarrow> p \<in> set promotion_pieces \<and>
                  (piece_moved m ! 0 = CHR ''w'' \<or> piece_moved m ! 0 = CHR ''b'')))"

text \<open>What regenerating the legal moves leaves as it was.\<close>

definition same_game :: "Board \<Rightarrow> Board \<Rightarrow> bool" where
  "same_game b b' =
     (move_log b' = move_log b \<and> halfmove_clock b' = halfmove_clock b \<and> fen_log b' = fen_log b \<and>
      legal_moves b' = legal_moves b \<and> white_to_move b' = white_to_move b \<and>
      fullmove_number b' = fullmove_number b)"

text \<open>The boards a caller can reach: a board is constructed from a FEN string, and then
  moves are made and undone through the two public methods.\<close>

definition board_inv :: "Board \<Rightarrow> bool" where
  "board_inv b =
     (wf_grid (board_array b) \<and> list_all move_ok (legal_moves b) \<and> list_all move_ok (move_log b))"

inductive reachable :: "Board \<Rightarrow> bool" where
  reachable_new: "new_Board fen = Some b \<Longrightarrow> reachable b"
| reachable_make: "reachable b \<Longrightarrow> make_legal_move b move = Some b' \<Longrightarrow> reachable b'"
| reachable_undo: "reachable b \<Longrightarrow> undo_move b False = Some b' \<Longrightarrow> reachable b'"

section \<open>Reading and writing the grid\<close>

lemma py_index_Some:
  "py_index xs i = Some x \<Longrightarrow> x \<in> set xs"
  by (auto simp: py_index_def Let_def split: if_splits)

lemma py_index_nonneg:
  "0 \<le> i \<Longrightarrow> i < int (length xs) \<Longrightarrow> py_index xs i = Some (xs ! nat i)"
  by (simp add: py_index_def Let_def)

lemma py_store_length:
  "py_store xs i v = Some ys \<Longrightarrow> length ys = length xs"
  by (auto simp: py_store_def Let_def split: if_splits)

lemma py_store_set:
  "py_store xs i v = Some ys \<Longrightarrow> set ys \<subseteq> insert v (set xs)"
  by (auto simp: py_store_def Let_def split: if_splits dest: set_update_subset_insert [THEN subsetD])

lemma py_store_defined:
  "(py_store xs i v \<noteq> None) = (py_index xs i \<noteq> None)"
  by (simp add: py_store_def py_index_def Let_def)

lemma py_index_store:
  assumes "py_index xs i = Some x" "py_store xs i v = Some ys"
  shows "\<exists>j < length xs. x = xs ! j \<and> ys = xs[j := v]"
proof (cases "i < 0")
  case True
  with assms show ?thesis
    by (intro exI [of _ "nat (i + int (length xs))"])
       (auto simp: py_index_def py_store_def Let_def split: if_splits)
next
  case False
  with assms show ?thesis
    by (intro exI [of _ "nat i"])
       (auto simp: py_index_def py_store_def Let_def split: if_splits)
qed

lemma grid_get_valid:
  "wf_grid g \<Longrightarrow> grid_get g r c = Some p \<Longrightarrow> valid_piece p"
  by (auto simp: grid_get_def wf_grid_def list_all_iff split: Option.bind_splits dest!: py_index_Some)

lemma grid_get_defined:
  assumes "wf_grid g" "in_board r" "in_board c"
  shows "\<exists>p. grid_get g r c = Some p"
proof -
  from assms have r: "0 \<le> r" "r < 8" "nat r < length g" and c: "0 \<le> c" "c < 8"
    by (auto simp: in_board_def wf_grid_def)
  from assms r have "g ! nat r \<in> set (take 8 g)"
    by (auto simp: in_set_conv_nth wf_grid_def intro!: exI [of _ "nat r"])
  with assms have "8 \<le> length (g ! nat r)" by (auto simp: wf_grid_def list_all_iff)
  with r c show ?thesis by (simp add: grid_get_def py_index_def Let_def)
qed

lemma take8_update:
  "list_all (\<lambda>row. 8 \<le> length row) (take 8 g) \<Longrightarrow> length row' = length (g ! j) \<Longrightarrow> j < length g \<Longrightarrow>
   list_all (\<lambda>row. 8 \<le> length row) (take 8 (g[j := row']))"
  by (auto simp: list_all_length nth_list_update)

lemma grid_set_wf:
  assumes "wf_grid g" "grid_set g r c v = Some g'" "valid_piece v"
  shows "wf_grid g'"
proof -
  from assms(2) obtain row row' where row: "py_index g r = Some row"
    and row': "py_store row c v = Some row'" and g': "py_store g r row' = Some g'"
    by (auto simp: grid_set_def split: Option.bind_splits)
  from py_index_store [OF row g'] obtain j where j: "j < length g" "g' = g[j := row']"
    and rowj: "row = g ! j" by auto
  have len: "length row' = length row" using row' by (rule py_store_length)
  have v: "list_all valid_piece row'"
    using py_store_set [OF row'] assms(1,3) py_index_Some [OF row]
    by (auto simp: wf_grid_def list_all_iff)
  show ?thesis
    using assms(1) j len rowj v
    by (auto simp: wf_grid_def take8_update list_all_length nth_list_update)
qed

lemma grid_set_defined:
  assumes "wf_grid g" "in_board r" "in_board c"
  shows "\<exists>g'. grid_set g r c v = Some g'"
proof -
  from assms have r: "0 \<le> r" "r < 8" "nat r < length g" and c: "0 \<le> c" "c < 8"
    by (auto simp: in_board_def wf_grid_def)
  from assms r have "g ! nat r \<in> set (take 8 g)"
    by (auto simp: in_set_conv_nth wf_grid_def intro!: exI [of _ "nat r"])
  with assms have "8 \<le> length (g ! nat r)" by (auto simp: wf_grid_def list_all_iff)
  with r c show ?thesis by (simp add: grid_set_def py_index_def py_store_def Let_def)
qed

lemma valid_piece_empty [simp]: "valid_piece ''--''"
  by (simp add: valid_piece_def)

lemma relocate_wf:
  assumes "wf_grid g"
  shows "wf_grid (fst (relocate g row dst src))"
proof (cases "grid_get g row src")
  case None
  with assms show ?thesis by (simp add: relocate_def)
next
  case (Some rook)
  with assms have rook: "valid_piece rook" by (auto dest: grid_get_valid)
  show ?thesis
  proof (cases "grid_set g row dst rook")
    case None
    with Some assms show ?thesis by (simp add: relocate_def)
  next
    case g1: (Some g1)
    with assms rook have wf1: "wf_grid g1" by (auto intro: grid_set_wf)
    show ?thesis
    proof (cases "grid_set g1 row src ''--''")
      case None
      with Some g1 wf1 show ?thesis by (simp add: relocate_def)
    next
      case g2: (Some g2)
      with wf1 have "wf_grid g2" by (auto intro: grid_set_wf)
      with Some g1 g2 show ?thesis by (simp add: relocate_def)
    qed
  qed
qed

section \<open>What the generators append\<close>

lemma for_each_inv:
  assumes "for_each xs body s = Some s'" "I s"
    and "\<And>x t t'. x \<in> set xs \<Longrightarrow> I t \<Longrightarrow> body x t = Some t' \<Longrightarrow> I t'"
  shows "I s'"
  using assms
proof (induction xs arbitrary: s)
  case Nil
  then show ?case by simp
next
  case (Cons x xs)
  from Cons.prems(1) obtain t where t: "body x s = Some t" and rest: "for_each xs body t = Some s'"
    by (auto split: Option.bind_splits)
  have "I t" using Cons.prems(2,3) t by auto
  then show ?case using Cons.IH [OF rest] Cons.prems(3) by auto
qed

lemma append_move_P:
  assumes "gen_new b castling P" "append_move b co promo castling ms = Some ms'"
    "promo_ok (board_array b) co promo" "list_all P ms"
  shows "list_all P ms'"
proof -
  from assms(2) obtain m where m: "new_Move (board_array b) co promo castling = Some m"
    and ms': "ms' = ms @ [m]"
    by (auto simp: append_move_def split: Option.bind_splits)
  from assms(1) m assms(3) have "P m" unfolding gen_new_def by blast
  with ms' assms(4) show ?thesis by simp
qed

lemma append_move_None_P:
  assumes "gen_new b castling P" "append_move b co None castling ms = Some ms'" "list_all P ms"
  shows "list_all P ms'"
  using assms(1,2) _ assms(3) by (rule append_move_P) (simp add: promo_ok_def)

lemma append_pawn_move_P:
  assumes new: "gen_new b False P"
    and run: "append_pawn_move b color (row, col, er, ec) ms = Some ms'"
    and pawn: "grid_get (board_array b) row col = Some pawn" "color = pawn ! 0"
    and ms: "list_all P ms"
  shows "list_all P ms'"
proof (cases "pawn_promotes color row")
  case False
  with run have "append_move b (row, col, er, ec) None False ms = Some ms'"
    by (simp add: append_pawn_move_def)
  then show ?thesis using new ms by (blast intro: append_move_None_P)
next
  case True
  with run have fe: "for_each promotion_pieces
      (\<lambda>piece ms. append_move b (row, col, er, ec) (Some piece) False ms) ms = Some ms'"
    by (simp add: append_pawn_move_def)
  from True pawn have col: "pawn ! 0 = CHR ''w'' \<or> pawn ! 0 = CHR ''b''"
    by (auto simp: pawn_promotes_def)
  show ?thesis
  proof (rule for_each_inv [OF fe, where I = "list_all P"])
    show "list_all P ms" by fact
  next
    fix x t t'
    assume x: "x \<in> set promotion_pieces" and t: "list_all P t"
      and a: "append_move b (row, col, er, ec) (Some x) False t = Some t'"
    have "promo_ok (board_array b) (row, col, er, ec) (Some x)"
      using x pawn(1) col by (simp add: promo_ok_def)
    with new a t show "list_all P t'" by (blast intro: append_move_P)
  qed
qed

lemma pawn_forward_P:
  assumes new: "gen_new b False P"
    and run: "pawn_forward b row col color direction ms = Some ms'"
    and pawn: "grid_get (board_array b) row col = Some pawn" "color = pawn ! 0"
    and ms: "list_all P ms"
  shows "list_all P ms'"
proof (cases "1 \<le> row + direction \<and> row + direction < 8")
  case False
  then have "pawn_forward b row col color direction ms = Some ms"
    unfolding pawn_forward_def by (rule if_not_P)
  with run ms show ?thesis by simp
next
  case True
  then have eq: "pawn_forward b row col color direction ms =
        do { ahead \<leftarrow> grid_get (board_array b) (row + direction) col;
             if ahead = ''--'' then
               do { ms \<leftarrow> append_pawn_move b color (row, col, row + direction, col) ms;
                    if (row = 6 \<and> color = CHR ''w'') \<or> (row = 1 \<and> color = CHR ''b'') then
                      do { ahead2 \<leftarrow> grid_get (board_array b) (row + 2 * direction) col;
                           if ahead2 = ''--''
                           then append_move b (row, col, row + 2 * direction, col) None False ms
                           else Some ms }
                    else Some ms }
             else Some ms }"
    unfolding pawn_forward_def by (rule if_P)
  from run obtain ahead where ahead: "grid_get (board_array b) (row + direction) col = Some ahead"
    unfolding eq by (cases "grid_get (board_array b) (row + direction) col") simp_all
  show ?thesis
  proof (cases "ahead = ''--''")
    case False
    from run have "ms' = ms" unfolding eq ahead using False by simp
    with ms show ?thesis by simp
  next
    case e: True
    from run obtain ms1 where
      one: "append_pawn_move b color (row, col, row + direction, col) ms = Some ms1"
      and two: "(if (row = 6 \<and> color = CHR ''w'') \<or> (row = 1 \<and> color = CHR ''b'') then
                      do { ahead2 \<leftarrow> grid_get (board_array b) (row + 2 * direction) col;
                           if ahead2 = ''--''
                           then append_move b (row, col, row + 2 * direction, col) None False ms1
                           else Some ms1 }
                    else Some ms1) = Some ms'"
      unfolding eq ahead using e
      by (cases "append_pawn_move b color (row, col, row + direction, col) ms") simp_all
    have ms1: "list_all P ms1" using new one pawn ms by (rule append_pawn_move_P)
    show ?thesis
    proof (cases "(row = 6 \<and> color = CHR ''w'') \<or> (row = 1 \<and> color = CHR ''b'')")
      case False
      from two have "ms' = ms1" unfolding if_not_P [OF False] by simp
      with ms1 show ?thesis by simp
    next
      case dbl: True
      from two obtain ahead2 where a2: "grid_get (board_array b) (row + 2 * direction) col = Some ahead2"
        unfolding if_P [OF dbl] by (cases "grid_get (board_array b) (row + 2 * direction) col") simp_all
      show ?thesis
      proof (cases "ahead2 = ''--''")
        case True
        from two have "append_move b (row, col, row + 2 * direction, col) None False ms1 = Some ms'"
          unfolding if_P [OF dbl] a2 using True by simp
        with new ms1 show ?thesis by (blast intro: append_move_None_P)
      next
        case False
        from two have "ms' = ms1" unfolding if_P [OF dbl] a2 using False by simp
        with ms1 show ?thesis by simp
      qed
    qed
  qed
qed

lemma pawn_capture_P:
  assumes new: "gen_new b False P"
    and run: "pawn_capture b row col color direction d_col ms = Some ms'"
    and pawn: "grid_get (board_array b) row col = Some pawn" "color = pawn ! 0"
    and ms: "list_all P ms"
  shows "list_all P ms'"
proof (cases "in_board (col + d_col) \<and> in_board (row + direction)")
  case False
  then have "pawn_capture b row col color direction d_col ms = Some ms"
    unfolding pawn_capture_def by (rule if_not_P)
  with run ms show ?thesis by simp
next
  case True
  then have eq: "pawn_capture b row col color direction d_col ms =
       do { target \<leftarrow> grid_get (board_array b) (row + direction) (col + d_col);
             if target ! 0 = (if color = CHR ''w'' then CHR ''b'' else CHR ''w'') then
               append_pawn_move b color (row, col, row + direction, col + d_col) ms
             else if Some (row + direction, col + d_col) = en_passant_square b then
               append_move b (row, col, row + direction, col + d_col) None False ms
             else Some ms }"
    unfolding pawn_capture_def by (rule if_P)
  from run obtain target where target: "grid_get (board_array b) (row + direction) (col + d_col) = Some target"
    unfolding eq by (cases "grid_get (board_array b) (row + direction) (col + d_col)") simp_all
  show ?thesis
  proof (cases "target ! 0 = (if color = CHR ''w'' then CHR ''b'' else CHR ''w'')")
    case c: True
    from run have "append_pawn_move b color (row, col, row + direction, col + d_col) ms = Some ms'"
      unfolding eq target using c by simp
    with new pawn ms show ?thesis by (blast intro: append_pawn_move_P)
  next
    case nc: False
    show ?thesis
    proof (cases "Some (row + direction, col + d_col) = en_passant_square b")
      case ep: True
      from run have "append_move b (row, col, row + direction, col + d_col) None False ms = Some ms'"
        unfolding eq target using nc ep by simp
      with new ms show ?thesis by (blast intro: append_move_None_P)
    next
      case nep: False
      from run have "ms' = ms" unfolding eq target using nc nep by simp
      with ms show ?thesis by simp
    qed
  qed
qed

lemma get_pawn_moves_P:
  assumes new: "gen_new b False P"
    and run: "get_pawn_moves b row col ms = Some ms'"
    and ms: "list_all P ms"
  shows "list_all P ms'"
proof -
  from run obtain pawn ms1 where pawn: "grid_get (board_array b) row col = Some pawn"
    and fwd: "pawn_forward b row col (pawn ! 0) (if pawn ! 0 = CHR ''w'' then - 1 else 1) ms = Some ms1"
    and cap: "for_each [- 1, 1] (pawn_capture b row col (pawn ! 0) (if pawn ! 0 = CHR ''w'' then - 1 else 1)) ms1 = Some ms'"
    by (auto simp: get_pawn_moves_def Let_def split: Option.bind_splits)
  have ms1: "list_all P ms1" using new fwd pawn refl ms by (rule pawn_forward_P)
  show ?thesis
  proof (rule for_each_inv [OF cap, where I = "list_all P"])
    show "list_all P ms1" by fact
  next
    fix x t t'
    assume "list_all P t"
      and "pawn_capture b row col (pawn ! 0) (if pawn ! 0 = CHR ''w'' then - 1 else 1) x t = Some t'"
    with new pawn show "list_all P t'" by (blast intro: pawn_capture_P)
  qed
qed

declare slide.simps [simp del]

lemma slide_P:
  "slide b row col dr dc r c ms = Some ms' \<Longrightarrow> gen_new b False P \<Longrightarrow> list_all P ms \<Longrightarrow> list_all P ms'"
proof (induction b row col dr dc r c ms rule: slide.induct)
  case (1 b row col dr dc r c moves)
  show ?case
  proof (cases "in_board r \<and> in_board c \<and> (dr \<noteq> 0 \<or> dc \<noteq> 0)")
    case False
    have "slide b row col dr dc r c moves = Some moves"
      by (subst slide.simps) (rule if_not_P [OF False])
    with "1.prems" show ?thesis by simp
  next
    case True
    have eq: "slide b row col dr dc r c moves =
        do { target \<leftarrow> grid_get (board_array b) r c;
             if target = ''--'' then
               do { ms \<leftarrow> append_move b (row, col, r, c) None False moves;
                    slide b row col dr dc (r + dr) (c + dc) ms }
             else
               do { own \<leftarrow> grid_get (board_array b) row col;
                    if target ! 0 \<noteq> own ! 0 then append_move b (row, col, r, c) None False moves
                    else Some moves } }"
      by (subst slide.simps) (rule if_P [OF True])
    from "1.prems"(1) obtain target where target: "grid_get (board_array b) r c = Some target"
      unfolding eq by (cases "grid_get (board_array b) r c") simp_all
    show ?thesis
    proof (cases "target = ''--''")
      case e: True
      from "1.prems"(1) obtain ms1 where
        a: "append_move b (row, col, r, c) None False moves = Some ms1"
        and rest: "slide b row col dr dc (r + dr) (c + dc) ms1 = Some ms'"
        unfolding eq target using e
        by (cases "append_move b (row, col, r, c) None False moves") simp_all
      have "list_all P ms1" using "1.prems"(2) a "1.prems"(3) by (rule append_move_None_P)
      then show ?thesis using "1.IH" [OF True target e a rest "1.prems"(2)] by simp
    next
      case ne: False
      from "1.prems"(1) obtain own where own: "grid_get (board_array b) row col = Some own"
        unfolding eq target using ne by (cases "grid_get (board_array b) row col") simp_all
      show ?thesis
      proof (cases "target ! 0 \<noteq> own ! 0")
        case True
        from "1.prems"(1) have "append_move b (row, col, r, c) None False moves = Some ms'"
          unfolding eq target own using ne True by simp
        with "1.prems"(2,3) show ?thesis by (blast intro: append_move_None_P)
      next
        case False
        from "1.prems"(1) have "ms' = moves" unfolding eq target own using ne False by simp
        with "1.prems"(3) show ?thesis by simp
      qed
    qed
  qed
qed

lemma slide_all_P:
  assumes new: "gen_new b False P" and run: "slide_all ds b row col ms = Some ms'" and ms: "list_all P ms"
  shows "list_all P ms'"
proof -
  from run have fe: "for_each ds (\<lambda>(dr, dc) ms. slide b row col dr dc (row + dr) (col + dc) ms) ms = Some ms'"
    by (simp add: slide_all_def)
  show ?thesis
  proof (rule for_each_inv [OF fe, where I = "list_all P"])
    show "list_all P ms" by fact
  next
    fix x t t'
    assume "list_all P t" "(case x of (dr, dc) \<Rightarrow> \<lambda>ms. slide b row col dr dc (row + dr) (col + dc) ms) t = Some t'"
    then show "list_all P t'" using new by (cases x) (auto intro: slide_P [rotated 1])
  qed
qed

lemma step_to_P:
  assumes new: "gen_new b False P" and run: "step_to b row col offset ms = Some ms'" and ms: "list_all P ms"
  shows "list_all P ms'"
proof -
  obtain dr dc where o: "offset = (dr, dc)" by (cases offset)
  show ?thesis
  proof (cases "in_board (row + dr) \<and> in_board (col + dc)")
    case False
    then have "step_to b row col offset ms = Some ms"
      unfolding o step_to_def Let_def prod.case by (rule if_not_P)
    with run ms show ?thesis by simp
  next
    case True
    then have eq: "step_to b row col offset ms =
        do { target \<leftarrow> grid_get (board_array b) (row + dr) (col + dc);
               if target = ''--'' then append_move b (row, col, row + dr, col + dc) None False ms
               else do { own \<leftarrow> grid_get (board_array b) row col;
                         if target ! 0 \<noteq> own ! 0 then append_move b (row, col, row + dr, col + dc) None False ms
                         else Some ms } }"
      unfolding o step_to_def Let_def prod.case by (rule if_P)
    from run obtain target where target: "grid_get (board_array b) (row + dr) (col + dc) = Some target"
      unfolding eq by (cases "grid_get (board_array b) (row + dr) (col + dc)") simp_all
    show ?thesis
    proof (cases "target = ''--''")
      case e: True
      from run have "append_move b (row, col, row + dr, col + dc) None False ms = Some ms'"
        unfolding eq target using e by simp
      with new ms show ?thesis by (blast intro: append_move_None_P)
    next
      case ne: False
      from run obtain own where own: "grid_get (board_array b) row col = Some own"
        unfolding eq target using ne by (cases "grid_get (board_array b) row col") simp_all
      show ?thesis
      proof (cases "target ! 0 \<noteq> own ! 0")
        case True
        from run have "append_move b (row, col, row + dr, col + dc) None False ms = Some ms'"
          unfolding eq target own using ne True by simp
        with new ms show ?thesis by (blast intro: append_move_None_P)
      next
        case False
        from run have "ms' = ms" unfolding eq target own using ne False by simp
        with ms show ?thesis by simp
      qed
    qed
  qed
qed

lemma step_all_P:
  assumes new: "gen_new b False P" and run: "step_all os b row col ms = Some ms'" and ms: "list_all P ms"
  shows "list_all P ms'"
proof -
  from run have fe: "for_each os (step_to b row col) ms = Some ms'" by (simp add: step_all_def)
  show ?thesis
    by (rule for_each_inv [OF fe, where I = "list_all P"]) (use ms new in \<open>blast intro: step_to_P\<close>)+
qed

lemma moveFunctions_P:
  assumes new: "gen_new b False P" and gen: "moveFunctions t = Some gen"
    and run: "gen b row col ms = Some ms'" and ms: "list_all P ms"
  shows "list_all P ms'"
proof -
  from gen consider "gen = get_pawn_moves" | "gen = get_rook_moves" | "gen = get_knight_moves"
    | "gen = get_bishop_moves" | "gen = get_queen_moves" | "gen = get_king_moves"
    by (auto simp: moveFunctions_def split: if_splits)
  then show ?thesis
  proof cases
    case 1 with new run ms show ?thesis by (blast intro: get_pawn_moves_P)
  next
    case 2 with new run ms show ?thesis unfolding get_rook_moves_def by (blast intro: slide_all_P)
  next
    case 3 with new run ms show ?thesis unfolding get_knight_moves_def by (blast intro: step_all_P)
  next
    case 4 with new run ms show ?thesis unfolding get_bishop_moves_def by (blast intro: slide_all_P)
  next
    case 5
    with run obtain ms1 where "get_rook_moves b row col ms = Some ms1" "get_bishop_moves b row col ms1 = Some ms'"
      by (auto simp: get_queen_moves_def split: Option.bind_splits)
    with new ms show ?thesis unfolding get_rook_moves_def get_bishop_moves_def
      by (blast intro: slide_all_P)
  next
    case 6 with new run ms show ?thesis unfolding get_king_moves_def by (blast intro: step_all_P)
  qed
qed

lemma scan_square_P:
  assumes new: "gen_new b False P" and run: "scan_square b sq ms = Some ms'" and ms: "list_all P ms"
  shows "list_all P ms'"
proof -
  obtain row col where sq: "sq = (row, col)" by (cases sq)
  from run consider "ms' = ms"
    | gen t where "moveFunctions t = Some gen" "gen b row col ms = Some ms'"
    unfolding sq scan_square_def Let_def by (auto split: if_splits Option.bind_splits)
  then show ?thesis
  proof cases
    case 1 with ms show ?thesis by simp
  next
    case 2 with new ms show ?thesis by (blast intro: moveFunctions_P)
  qed
qed

lemma get_psuedo_legal_moves_P:
  assumes new: "gen_new b False P" and run: "get_psuedo_legal_moves b = Some ms"
  shows "list_all P ms"
proof -
  from run have fe: "for_each squares (scan_square b) [] = Some ms" by (simp add: get_psuedo_legal_moves_def)
  show ?thesis
    by (rule for_each_inv [OF fe, where I = "list_all P"]) (use new in \<open>auto intro: scan_square_P\<close>)
qed

section \<open>The generators return on a well-formed grid\<close>

lemma for_each_defined:
  assumes "\<And>x t. x \<in> set xs \<Longrightarrow> \<exists>t'. body x t = Some t'"
  shows "\<exists>s'. for_each xs body s = Some s'"
  using assms
proof (induction xs arbitrary: s)
  case Nil
  then show ?case by simp
next
  case (Cons x xs)
  from Cons.prems [of x s] obtain t where t: "body x s = Some t" by auto
  from Cons.IH [of t] Cons.prems obtain s' where "for_each xs body t = Some s'" by auto
  with t show ?case by simp
qed

lemma file_map_defined: "in_board c \<Longrightarrow> \<exists>x. file_map c = Some x"
  by (simp add: file_map_def in_board_def)

lemma rank_map_defined: "in_board r \<Longrightarrow> \<exists>x. rank_map r = Some x"
  by (simp add: rank_map_def in_board_def)

lemma coordinates_to_uci_defined:
  assumes "in_board sr" "in_board sc" "in_board er" "in_board ec"
  shows "\<exists>u. coordinates_to_uci sr sc er ec promo = Some u"
proof -
  from assms(2) obtain a where a: "file_map sc = Some a" using file_map_defined by blast
  from assms(1) obtain b where b: "rank_map sr = Some b" using rank_map_defined by blast
  from assms(4) obtain c where c: "file_map ec = Some c" using file_map_defined by blast
  from assms(3) obtain d where d: "rank_map er = Some d" using rank_map_defined by blast
  show ?thesis by (cases promo) (simp_all add: coordinates_to_uci_def a b c d)
qed

lemma new_Move_defined:
  assumes "wf_grid g" "in_board sr" "in_board sc" "in_board er" "in_board ec"
  shows "\<exists>m. new_Move g (sr, sc, er, ec) promo castling = Some m"
proof -
  from assms obtain pm where pm: "grid_get g sr sc = Some pm" using grid_get_defined by blast
  from assms obtain pc where pc: "grid_get g er ec = Some pc" using grid_get_defined by blast
  from assms obtain u where u: "coordinates_to_uci sr sc er ec promo = Some u"
    using coordinates_to_uci_defined by blast
  show ?thesis by (simp add: new_Move_def Let_def pm pc u)
qed

lemma append_move_defined:
  assumes "wf_grid (board_array b)" "in_board sr" "in_board sc" "in_board er" "in_board ec"
  shows "\<exists>ms'. append_move b (sr, sc, er, ec) promo castling ms = Some ms'"
proof -
  from assms obtain m where "new_Move (board_array b) (sr, sc, er, ec) promo castling = Some m"
    using new_Move_defined by blast
  then show ?thesis by (simp add: append_move_def)
qed

lemma append_pawn_move_defined:
  assumes "wf_grid (board_array b)" "in_board sr" "in_board sc" "in_board er" "in_board ec"
  shows "\<exists>ms'. append_pawn_move b color (sr, sc, er, ec) ms = Some ms'"
proof (cases "pawn_promotes color sr")
  case True
  then have "append_pawn_move b color (sr, sc, er, ec) ms =
      for_each promotion_pieces (\<lambda>piece ms. append_move b (sr, sc, er, ec) (Some piece) False ms) ms"
    by (simp add: append_pawn_move_def)
  moreover have "\<exists>s'. for_each promotion_pieces
      (\<lambda>piece ms. append_move b (sr, sc, er, ec) (Some piece) False ms) ms = Some s'"
    by (rule for_each_defined) (use assms in \<open>blast intro: append_move_defined\<close>)
  ultimately show ?thesis by simp
next
  case False
  then have "append_pawn_move b color (sr, sc, er, ec) ms = append_move b (sr, sc, er, ec) None False ms"
    by (simp add: append_pawn_move_def)
  with assms show ?thesis using append_move_defined by simp
qed

lemma pawn_forward_defined:
  assumes wf: "wf_grid (board_array b)" and rc: "in_board row" "in_board col"
    and dir: "direction = (if color = CHR ''w'' then - 1 else 1)"
  shows "\<exists>ms'. pawn_forward b row col color direction ms = Some ms'"
proof (cases "1 \<le> row + direction \<and> row + direction < 8")
  case False
  then have "pawn_forward b row col color direction ms = Some ms"
    unfolding pawn_forward_def by (rule if_not_P)
  then show ?thesis by simp
next
  case True
  then have eq: "pawn_forward b row col color direction ms =
        do { ahead \<leftarrow> grid_get (board_array b) (row + direction) col;
             if ahead = ''--'' then
               do { ms \<leftarrow> append_pawn_move b color (row, col, row + direction, col) ms;
                    if (row = 6 \<and> color = CHR ''w'') \<or> (row = 1 \<and> color = CHR ''b'') then
                      do { ahead2 \<leftarrow> grid_get (board_array b) (row + 2 * direction) col;
                           if ahead2 = ''--''
                           then append_move b (row, col, row + 2 * direction, col) None False ms
                           else Some ms }
                    else Some ms }
             else Some ms }"
    unfolding pawn_forward_def by (rule if_P)
  from True have r1: "in_board (row + direction)" by (simp add: in_board_def)
  with wf rc obtain ahead where ahead: "grid_get (board_array b) (row + direction) col = Some ahead"
    using grid_get_defined by blast
  show ?thesis
  proof (cases "ahead = ''--''")
    case False
    then show ?thesis unfolding eq ahead by simp
  next
    case e: True
    from wf rc r1 obtain ms1 where one: "append_pawn_move b color (row, col, row + direction, col) ms = Some ms1"
      using append_pawn_move_defined by blast
    have inner: "\<exists>ms'. (if (row = 6 \<and> color = CHR ''w'') \<or> (row = 1 \<and> color = CHR ''b'') then
                      do { ahead2 \<leftarrow> grid_get (board_array b) (row + 2 * direction) col;
                           if ahead2 = ''--''
                           then append_move b (row, col, row + 2 * direction, col) None False ms1
                           else Some ms1 }
                    else Some ms1) = Some ms'"
    proof (cases "(row = 6 \<and> color = CHR ''w'') \<or> (row = 1 \<and> color = CHR ''b'')")
      case False
      show ?thesis unfolding if_not_P [OF False] by simp
    next
      case dbl: True
      with dir have r2: "in_board (row + 2 * direction)" by (auto simp: in_board_def)
      with wf rc obtain ahead2 where a2: "grid_get (board_array b) (row + 2 * direction) col = Some ahead2"
        using grid_get_defined by blast
      from wf rc r2 obtain ms2 where two: "append_move b (row, col, row + 2 * direction, col) None False ms1 = Some ms2"
        using append_move_defined by blast
      show ?thesis unfolding if_P [OF dbl] a2 using two by (cases "ahead2 = ''--''") simp_all
    qed
    then obtain ms' where "(if (row = 6 \<and> color = CHR ''w'') \<or> (row = 1 \<and> color = CHR ''b'') then
                      do { ahead2 \<leftarrow> grid_get (board_array b) (row + 2 * direction) col;
                           if ahead2 = ''--''
                           then append_move b (row, col, row + 2 * direction, col) None False ms1
                           else Some ms1 }
                    else Some ms1) = Some ms'" ..
    then have "pawn_forward b row col color direction ms = Some ms'"
      unfolding eq ahead using e one by (simp del: if_split)
    then show ?thesis by blast
  qed
qed

lemma pawn_capture_defined:
  assumes wf: "wf_grid (board_array b)" and rc: "in_board row" "in_board col"
  shows "\<exists>ms'. pawn_capture b row col color direction d_col ms = Some ms'"
proof (cases "in_board (col + d_col) \<and> in_board (row + direction)")
  case False
  then have "pawn_capture b row col color direction d_col ms = Some ms"
    unfolding pawn_capture_def by (rule if_not_P)
  then show ?thesis by simp
next
  case True
  then have eq: "pawn_capture b row col color direction d_col ms =
       do { target \<leftarrow> grid_get (board_array b) (row + direction) (col + d_col);
             if target ! 0 = (if color = CHR ''w'' then CHR ''b'' else CHR ''w'') then
               append_pawn_move b color (row, col, row + direction, col + d_col) ms
             else if Some (row + direction, col + d_col) = en_passant_square b then
               append_move b (row, col, row + direction, col + d_col) None False ms
             else Some ms }"
    unfolding pawn_capture_def by (rule if_P)
  from wf True obtain target where target: "grid_get (board_array b) (row + direction) (col + d_col) = Some target"
    using grid_get_defined by blast
  from wf rc True obtain m1 where m1: "append_pawn_move b color (row, col, row + direction, col + d_col) ms = Some m1"
    using append_pawn_move_defined by blast
  from wf rc True obtain m2 where m2: "append_move b (row, col, row + direction, col + d_col) None False ms = Some m2"
    using append_move_defined by blast
  show ?thesis unfolding eq target using m1 m2
    by (cases "target ! 0 = (if color = CHR ''w'' then CHR ''b'' else CHR ''w'')";
        cases "Some (row + direction, col + d_col) = en_passant_square b") simp_all
qed

lemma get_pawn_moves_defined:
  assumes wf: "wf_grid (board_array b)" and rc: "in_board row" "in_board col"
  shows "\<exists>ms'. get_pawn_moves b row col ms = Some ms'"
proof -
  from wf rc obtain pawn where pawn: "grid_get (board_array b) row col = Some pawn"
    using grid_get_defined by blast
  from wf rc obtain ms1 where
    fwd: "pawn_forward b row col (pawn ! 0) (if pawn ! 0 = CHR ''w'' then - 1 else 1) ms = Some ms1"
    using pawn_forward_defined by blast
  have "\<exists>s'. for_each [- 1, 1] (pawn_capture b row col (pawn ! 0) (if pawn ! 0 = CHR ''w'' then - 1 else 1)) ms1 = Some s'"
    by (rule for_each_defined) (use wf rc in \<open>blast intro: pawn_capture_defined\<close>)
  with pawn fwd show ?thesis by (simp add: get_pawn_moves_def Let_def)
qed

lemma slide_defined:
  "wf_grid (board_array b) \<Longrightarrow> in_board row \<Longrightarrow> in_board col \<Longrightarrow>
   \<exists>ms'. slide b row col dr dc r c ms = Some ms'"
proof (induction b row col dr dc r c ms rule: slide.induct)
  case (1 b row col dr dc r c moves)
  show ?case
  proof (cases "in_board r \<and> in_board c \<and> (dr \<noteq> 0 \<or> dc \<noteq> 0)")
    case False
    have "slide b row col dr dc r c moves = Some moves"
      by (subst slide.simps) (rule if_not_P [OF False])
    then show ?thesis by simp
  next
    case True
    have eq: "slide b row col dr dc r c moves =
        do { target \<leftarrow> grid_get (board_array b) r c;
             if target = ''--'' then
               do { ms \<leftarrow> append_move b (row, col, r, c) None False moves;
                    slide b row col dr dc (r + dr) (c + dc) ms }
             else
               do { own \<leftarrow> grid_get (board_array b) row col;
                    if target ! 0 \<noteq> own ! 0 then append_move b (row, col, r, c) None False moves
                    else Some moves } }"
      by (subst slide.simps) (rule if_P [OF True])
    from "1.prems" True obtain target where target: "grid_get (board_array b) r c = Some target"
      using grid_get_defined by blast
    from "1.prems" obtain own where own: "grid_get (board_array b) row col = Some own"
      using grid_get_defined by blast
    from "1.prems" True obtain ms1 where a: "append_move b (row, col, r, c) None False moves = Some ms1"
      using append_move_defined by blast
    show ?thesis
    proof (cases "target = ''--''")
      case e: True
      from "1.IH" [OF True target e a "1.prems"] obtain ms' where
        "slide b row col dr dc (r + dr) (c + dc) ms1 = Some ms'" by blast
      then show ?thesis unfolding eq target using e a by simp
    next
      case False
      then show ?thesis unfolding eq target own using a by (cases "target ! 0 \<noteq> own ! 0") simp_all
    qed
  qed
qed

lemma slide_all_defined:
  assumes "wf_grid (board_array b)" "in_board row" "in_board col"
  shows "\<exists>ms'. slide_all ds b row col ms = Some ms'"
  unfolding slide_all_def
proof (rule for_each_defined)
  fix x :: "int \<times> int" and t :: "Move list"
  obtain dr dc where x: "x = (dr, dc)" by (cases x)
  from assms obtain t' where "slide b row col dr dc (row + dr) (col + dc) t = Some t'"
    using slide_defined by blast
  then show "\<exists>t'. (case x of (dr, dc) \<Rightarrow> \<lambda>ms. slide b row col dr dc (row + dr) (col + dc) ms) t = Some t'"
    by (simp add: x)
qed

lemma step_to_defined:
  assumes wf: "wf_grid (board_array b)" and rc: "in_board row" "in_board col"
  shows "\<exists>ms'. step_to b row col offset ms = Some ms'"
proof -
  obtain dr dc where o: "offset = (dr, dc)" by (cases offset)
  show ?thesis
  proof (cases "in_board (row + dr) \<and> in_board (col + dc)")
    case False
    then have "step_to b row col offset ms = Some ms"
      unfolding o step_to_def Let_def prod.case by (rule if_not_P)
    then show ?thesis by simp
  next
    case True
    then have eq: "step_to b row col offset ms =
        do { target \<leftarrow> grid_get (board_array b) (row + dr) (col + dc);
               if target = ''--'' then append_move b (row, col, row + dr, col + dc) None False ms
               else do { own \<leftarrow> grid_get (board_array b) row col;
                         if target ! 0 \<noteq> own ! 0 then append_move b (row, col, row + dr, col + dc) None False ms
                         else Some ms } }"
      unfolding o step_to_def Let_def prod.case by (rule if_P)
    from wf True obtain target where target: "grid_get (board_array b) (row + dr) (col + dc) = Some target"
      using grid_get_defined by blast
    from wf rc obtain own where own: "grid_get (board_array b) row col = Some own"
      using grid_get_defined by blast
    from wf rc True obtain ms1 where a: "append_move b (row, col, row + dr, col + dc) None False ms = Some ms1"
      using append_move_defined by blast
    show ?thesis unfolding eq target using a own
      by (cases "target = ''--''"; cases "target ! 0 \<noteq> own ! 0") simp_all
  qed
qed

lemma step_all_defined:
  assumes "wf_grid (board_array b)" "in_board row" "in_board col"
  shows "\<exists>ms'. step_all os b row col ms = Some ms'"
  unfolding step_all_def
  by (rule for_each_defined) (use assms in \<open>blast intro: step_to_defined\<close>)

lemma get_queen_moves_defined:
  assumes "wf_grid (board_array b)" "in_board row" "in_board col"
  shows "\<exists>ms'. get_queen_moves b row col ms = Some ms'"
proof -
  from assms obtain ms1 where r: "get_rook_moves b row col ms = Some ms1"
    unfolding get_rook_moves_def using slide_all_defined by blast
  from assms obtain ms2 where "get_bishop_moves b row col ms1 = Some ms2"
    unfolding get_bishop_moves_def using slide_all_defined by blast
  with r show ?thesis by (simp add: get_queen_moves_def)
qed

lemma moveFunctions_defined:
  assumes "wf_grid (board_array b)" "in_board row" "in_board col" "moveFunctions t = Some gen"
  shows "\<exists>ms'. gen b row col ms = Some ms'"
proof -
  from assms(4) consider "gen = get_pawn_moves" | "gen = get_rook_moves" | "gen = get_knight_moves"
    | "gen = get_bishop_moves" | "gen = get_queen_moves" | "gen = get_king_moves"
    by (auto simp: moveFunctions_def split: if_splits)
  then show ?thesis
  proof cases
    case 1 with assms show ?thesis using get_pawn_moves_defined by simp
  next
    case 2 with assms show ?thesis unfolding get_rook_moves_def using slide_all_defined by simp
  next
    case 3 with assms show ?thesis unfolding get_knight_moves_def using step_all_defined by simp
  next
    case 4 with assms show ?thesis unfolding get_bishop_moves_def using slide_all_defined by simp
  next
    case 5 with assms show ?thesis using get_queen_moves_defined by simp
  next
    case 6 with assms show ?thesis unfolding get_king_moves_def using step_all_defined by simp
  qed
qed

lemma valid_piece_type:
  assumes "valid_piece p" "p \<noteq> ''--''"
  shows "\<exists>gen. moveFunctions (p ! 1) = Some gen"
  using assms by (auto simp: valid_piece_def moveFunctions_def)

lemma scan_square_defined:
  assumes wf: "wf_grid (board_array b)" and rc: "in_board row" "in_board col"
  shows "\<exists>ms'. scan_square b (row, col) ms = Some ms'"
proof -
  from wf rc obtain piece where piece: "grid_get (board_array b) row col = Some piece"
    using grid_get_defined by blast
  with wf have v: "valid_piece piece" by (rule grid_get_valid)
  show ?thesis
  proof (cases "piece \<noteq> ''--'' \<and> ((piece ! 0 = CHR ''w'' \<and> white_to_move b) \<or> (piece ! 0 = CHR ''b'' \<and> \<not> white_to_move b))")
    case False
    then have "scan_square b (row, col) ms = Some ms"
      unfolding scan_square_def prod.case piece Let_def by auto
    then show ?thesis by simp
  next
    case True
    with v obtain gen where gen: "moveFunctions (piece ! 1) = Some gen"
      using valid_piece_type by blast
    from wf rc gen obtain ms' where "gen b row col ms = Some ms'"
      using moveFunctions_defined by blast
    with True gen have "scan_square b (row, col) ms = Some ms'"
      unfolding scan_square_def prod.case piece Let_def by auto
    then show ?thesis by simp
  qed
qed

lemma squares_in_board: "(row, col) \<in> set squares \<Longrightarrow> in_board row \<and> in_board col"
  by (auto simp: squares_def in_board_def)

lemma get_psuedo_legal_moves_defined:
  assumes "wf_grid (board_array b)"
  shows "\<exists>ms. get_psuedo_legal_moves b = Some ms"
  unfolding get_psuedo_legal_moves_def
proof (rule for_each_defined)
  fix x :: "int \<times> int" and t :: "Move list"
  assume x: "x \<in> set squares"
  obtain row col where rc: "x = (row, col)" by (cases x)
  with x have "in_board row" "in_board col" using squares_in_board by blast+
  with assms show "\<exists>t'. scan_square b x t = Some t'" unfolding rc by (rule scan_square_defined)
qed

lemma square_under_attack_defined:
  assumes "wf_grid (board_array b)"
  shows "\<exists>v. square_under_attack b row col = Some v"
proof -
  have "wf_grid (board_array (b \<lparr> white_to_move := \<not> white_to_move b \<rparr>))" using assms by simp
  then obtain ms where "get_psuedo_legal_moves (b \<lparr> white_to_move := \<not> white_to_move b \<rparr>) = Some ms"
    using get_psuedo_legal_moves_defined by blast
  then show ?thesis by (simp add: square_under_attack_def)
qed

section \<open>Properties of generated moves\<close>

lemma new_Move_fields:
  assumes "new_Move g (sr, sc, er, ec) promo castling = Some m"
  shows "grid_get g sr sc = Some (piece_moved m)" "grid_get g er ec = Some (piece_captured m)"
    "promoted_piece m = promo" "is_castling m = castling"
    "start_row m = sr" "start_col m = sc" "end_row m = er" "end_col m = ec"
proof -
  from assms obtain pm pc u where pm: "grid_get g sr sc = Some pm" and pc: "grid_get g er ec = Some pc"
    and u: "coordinates_to_uci sr sc er ec promo = Some u"
    by (auto simp: new_Move_def split: Option.bind_splits)
  from assms have m: "m = \<lparr> start_row = sr, start_col = sc, end_row = er, end_col = ec,
                       piece_moved = pm, piece_captured = pc, is_check = False,
                       is_castling = castling, promoted_piece = promo, uci = u, san = [] \<rparr>
        \<lparr> san := get_san \<lparr> start_row = sr, start_col = sc, end_row = er, end_col = ec,
                       piece_moved = pm, piece_captured = pc, is_check = False,
                       is_castling = castling, promoted_piece = promo, uci = u, san = [] \<rparr> \<rparr>"
    by (simp add: new_Move_def pm pc u Let_def)
  show "grid_get g sr sc = Some (piece_moved m)" "grid_get g er ec = Some (piece_captured m)"
    "promoted_piece m = promo" "is_castling m = castling"
    "start_row m = sr" "start_col m = sc" "end_row m = er" "end_col m = ec"
    by (simp_all add: m pm pc)
qed

lemma gen_new_not_castling: "gen_new b False (\<lambda>m. \<not> is_castling m)"
  unfolding gen_new_def
proof (intro allI impI)
  fix co promo m
  assume "new_Move (board_array b) co promo False = Some m"
  then show "\<not> is_castling m" by (cases co) (auto dest: new_Move_fields(4))
qed

lemma gen_new_castling: "gen_new b True is_castling"
  unfolding gen_new_def
proof (intro allI impI)
  fix co promo m
  assume "new_Move (board_array b) co promo True = Some m"
  then show "is_castling m" by (cases co) (auto dest: new_Move_fields(4))
qed

lemma gen_new_move_ok:
  assumes "wf_grid (board_array b)"
  shows "gen_new b castling move_ok"
  unfolding gen_new_def
proof (intro allI impI)
  fix co promo m
  assume new: "new_Move (board_array b) co promo castling = Some m"
    and pr: "promo_ok (board_array b) co promo"
  obtain sr sc er ec where co: "co = (sr, sc, er, ec)" by (cases co)
  note f = new_Move_fields [OF new [unfolded co]]
  have "valid_piece (piece_moved m)" "valid_piece (piece_captured m)"
    using assms f(1,2) by (blast intro: grid_get_valid)+
  moreover have "case promoted_piece m of None \<Rightarrow> True
       | Some p \<Rightarrow> p \<in> set promotion_pieces \<and> (piece_moved m ! 0 = CHR ''w'' \<or> piece_moved m ! 0 = CHR ''b'')"
    using pr f(1,3) unfolding co promo_ok_def by (cases promo) simp_all
  ultimately show "move_ok m" by (simp add: move_ok_def)
qed

lemma castle_side_cases:
  assumes run: "castle_side b row col ws bs d1 d2 ms = Some ms'"
  shows "ms' = ms \<or> append_move b (row, col, row, col + d2) None True ms = Some ms'"
proof (cases "(white_to_move b \<and> has_rights (castling_rights b) ws) \<or>
         (\<not> white_to_move b \<and> has_rights (castling_rights b) bs)")
    case False
    then have "castle_side b row col ws bs d1 d2 ms = Some ms"
      unfolding castle_side_def by (rule if_not_P)
    with run show ?thesis by simp
  next
    case True
    then have eq: "castle_side b row col ws bs d1 d2 ms =
        do { s1 \<leftarrow> grid_get (board_array b) row (col + d1);
             s2 \<leftarrow> grid_get (board_array b) row (col + d2);
             if s1 = s2 \<and> s2 = ''--'' then
               do { a1 \<leftarrow> square_under_attack b row (col + d1);
                    if a1 then Some ms
                    else do { a2 \<leftarrow> square_under_attack b row (col + d2);
                              if a2 then Some ms
                              else append_move b (row, col, row, col + d2) None True ms } }
             else Some ms }"
      unfolding castle_side_def by (rule if_P)
    from run obtain s1 where s1: "grid_get (board_array b) row (col + d1) = Some s1"
      unfolding eq by (cases "grid_get (board_array b) row (col + d1)") simp_all
    from run obtain s2 where s2: "grid_get (board_array b) row (col + d2) = Some s2"
      unfolding eq s1 by (cases "grid_get (board_array b) row (col + d2)") simp_all
    show ?thesis
    proof (cases "s1 = s2 \<and> s2 = ''--''")
      case False
      with run show ?thesis unfolding eq s1 s2 by simp
    next
      case e: True
      from run obtain a1 where a1: "square_under_attack b row (col + d1) = Some a1"
        unfolding eq s1 s2 using e by (cases "square_under_attack b row (col + d1)") simp_all
      show ?thesis
      proof (cases a1)
        case True
        with run show ?thesis unfolding eq s1 s2 a1 using e by simp
      next
        case na1: False
        from run obtain a2 where a2: "square_under_attack b row (col + d2) = Some a2"
          unfolding eq s1 s2 a1 using e na1 by (cases "square_under_attack b row (col + d2)") simp_all
        from run show ?thesis unfolding eq s1 s2 a1 a2 using e na1 by (cases a2) simp_all
      qed
    qed
  qed

lemma castle_side_P:
  assumes new: "gen_new b True P" and run: "castle_side b row col ws bs d1 d2 ms = Some ms'"
    and ms: "list_all P ms"
  shows "list_all P ms'"
  using castle_side_cases [OF run] new ms by (blast intro: append_move_None_P)

lemma castle_side_appends:
  assumes run: "castle_side b row col ws bs d1 d2 ms = Some ms'"
  shows "\<exists>cs. ms' = ms @ cs \<and> list_all is_castling cs"
proof -
  from castle_side_cases [OF run] consider "ms' = ms"
    | "append_move b (row, col, row, col + d2) None True ms = Some ms'" by blast
  then show ?thesis
  proof cases
    case 1
    then show ?thesis by (intro exI [of _ "[]"]) simp
  next
    case 2
    then obtain m where m: "new_Move (board_array b) (row, col, row, col + d2) None True = Some m"
      and ms': "ms' = ms @ [m]"
      by (auto simp: append_move_def split: Option.bind_splits)
    from new_Move_fields(4) [OF m] ms' show ?thesis by (intro exI [of _ "[m]"]) simp
  qed
qed

lemma get_castling_moves_P:
  assumes new: "gen_new b True P" and run: "get_castling_moves b row col ms = Some ms'"
    and ms: "list_all P ms"
  shows "list_all P ms'"
proof -
  from run obtain chk where chk: "in_check b = Some chk"
    by (cases "in_check b") (simp_all add: get_castling_moves_def)
  show ?thesis
  proof (cases chk)
    case True
    with run chk ms show ?thesis by (simp add: get_castling_moves_def)
  next
    case False
    with run chk obtain ms1 where k: "castle_side b row col CHR ''K'' CHR ''k'' 1 2 ms = Some ms1"
      and q: "castle_side b row col CHR ''Q'' CHR ''q'' (- 1) (- 2) ms1 = Some ms'"
      by (cases "castle_side b row col CHR ''K'' CHR ''k'' 1 2 ms") (simp_all add: get_castling_moves_def)
    from new k ms have "list_all P ms1" by (rule castle_side_P)
    with new q show ?thesis by (rule castle_side_P)
  qed
qed

lemma get_castling_moves_appends:
  assumes run: "get_castling_moves b row col ms = Some ms'"
  shows "\<exists>cs. ms' = ms @ cs \<and> list_all is_castling cs"
proof -
  from run obtain chk where chk: "in_check b = Some chk"
    by (cases "in_check b") (simp_all add: get_castling_moves_def)
  show ?thesis
  proof (cases chk)
    case True
    with run chk have "ms' = ms" by (simp add: get_castling_moves_def)
    then show ?thesis by (intro exI [of _ "[]"]) simp
  next
    case False
    with run chk obtain ms1 where k: "castle_side b row col CHR ''K'' CHR ''k'' 1 2 ms = Some ms1"
      and q: "castle_side b row col CHR ''Q'' CHR ''q'' (- 1) (- 2) ms1 = Some ms'"
      by (cases "castle_side b row col CHR ''K'' CHR ''k'' 1 2 ms") (simp_all add: get_castling_moves_def)
    from castle_side_appends [OF k] obtain c1 where c1: "ms1 = ms @ c1" "list_all is_castling c1" by blast
    from castle_side_appends [OF q] obtain c2 where c2: "ms' = ms1 @ c2" "list_all is_castling c2" by blast
    from c1 c2 show ?thesis by (intro exI [of _ "c1 @ c2"]) simp
  qed
qed

section \<open>Making a move on a well-formed grid\<close>

lemma valid_promoted:
  assumes "p \<in> set promotion_pieces" "c = CHR ''w'' \<or> c = CHR ''b''"
  shows "valid_piece (c # p)"
  using assms by (auto simp: promotion_pieces_def valid_piece_def)

lemma make_tail_wf:
  assumes wf: "wf_grid (board_array b)" and ok: "move_ok m"
  shows "wf_grid (board_array (make_tail b m))"
proof -
  define pg where "pg = (case promoted_piece m of
              None \<Rightarrow> Some (board_array b)
            | Some p \<Rightarrow> grid_set (board_array b) (end_row m) (end_col m) (piece_moved m ! 0 # p))"
  show ?thesis
  proof (cases pg)
    case None
    then have "make_tail b m = b" by (simp add: make_tail_def pg_def)
    with wf show ?thesis by simp
  next
    case (Some g)
    have g: "wf_grid g"
    proof (cases "promoted_piece m")
      case None
      with Some wf show ?thesis by (simp add: pg_def)
    next
      case p: (Some p)
      with ok have "valid_piece (piece_moved m ! 0 # p)"
        by (auto simp: move_ok_def intro: valid_promoted)
      with Some p wf show ?thesis by (auto simp: pg_def intro: grid_set_wf)
    qed
    from Some have "board_array (make_tail b m) = g
        \<or> board_array (make_tail b m) = fst (relocate g (end_row m) (end_col m - 1) (end_col m + 1))
        \<or> board_array (make_tail b m) = fst (relocate g (end_row m) (end_col m + 1) (end_col m - 2))"
      by (simp add: make_tail_def pg_def Let_def)
    with g show ?thesis using relocate_wf by metis
  qed
qed

lemma make_psuedo_legal_move_wf:
  assumes wf: "wf_grid (board_array b)" and ok: "move_ok m"
    and run: "make_psuedo_legal_move b m = Some b'"
  shows "wf_grid (board_array b')"
proof -
  define b1 where "b1 = b \<lparr> move_log := move_log b @ [m], white_to_move := \<not> white_to_move b \<rparr>"
  define b2 where "b2 = b1 \<lparr> fullmove_number := fullmove_number b1 + (if white_to_move b1 then 1 else 0) \<rparr>"
  define e3 where "e3 = (if piece_moved m ! 1 = CHR ''p'' \<and> start_col m \<noteq> end_col m \<and> piece_captured m = ''--''
               then grid_set (board_array b2)
                      (end_row m + (if piece_moved m ! 0 = CHR ''w'' then 1 else - 1)) (end_col m) ''--''
               else Some (board_array b2))"
  have wf2: "wf_grid (board_array b2)" using wf by (simp add: b2_def b1_def)
  have eq: "make_psuedo_legal_move b m =
      (case e3 of
           None \<Rightarrow> Some b2
         | Some g3 \<Rightarrow>
             (case grid_set g3 (start_row m) (start_col m) ''--'' of
                None \<Rightarrow> Some (b2 \<lparr> board_array := g3 \<rparr>)
              | Some g4 \<Rightarrow>
                  (case grid_set g4 (end_row m) (end_col m) (piece_moved m) of
                     None \<Rightarrow> Some (b2 \<lparr> board_array := g4 \<rparr>)
                   | Some g5 \<Rightarrow>
                       (case get_king_locations g5 of
                          None \<Rightarrow> None
                        | Some (wk, bk) \<Rightarrow>
                            Some (make_tail
                                    (b2 \<lparr> board_array := g5, white_king_pos := wk, black_king_pos := bk \<rparr>)
                                    m)))))"
    unfolding make_psuedo_legal_move_def Let_def b2_def b1_def e3_def by (rule refl)
  show ?thesis
  proof (cases e3)
    case None
    with run wf2 show ?thesis unfolding eq by auto
  next
    case (Some g3)
    have g3: "wf_grid g3" using Some wf2 unfolding e3_def by (auto split: if_splits intro: grid_set_wf)
    show ?thesis
    proof (cases "grid_set g3 (start_row m) (start_col m) ''--''")
      case None
      with run Some g3 show ?thesis unfolding eq by auto
    next
      case g4: (Some g4)
      with g3 have wf4: "wf_grid g4" by (auto intro: grid_set_wf)
      show ?thesis
      proof (cases "grid_set g4 (end_row m) (end_col m) (piece_moved m)")
        case None
        with run Some g4 wf4 show ?thesis unfolding eq by auto
      next
        case g5: (Some g5)
        with wf4 ok have wf5: "wf_grid g5" by (auto simp: move_ok_def intro: grid_set_wf)
        from run Some g4 g5 obtain wk bk where
          "b' = make_tail (b2 \<lparr> board_array := g5, white_king_pos := wk, black_king_pos := bk \<rparr>) m"
          unfolding eq by (auto split: option.splits)
        with wf5 ok show ?thesis by (simp add: make_tail_wf)
      qed
    qed
  qed
qed

lemma make_psuedo_legal_move_fields:
  assumes "make_psuedo_legal_move b m = Some b'"
  shows "move_log b' = move_log b @ [m]" "halfmove_clock b' = halfmove_clock b"
    "fen_log b' = fen_log b" "legal_moves b' = legal_moves b"
    "white_to_move b' = (\<not> white_to_move b)"
    "fullmove_number b' = fullmove_number b + (if white_to_move b then 0 else 1)"
  using assms
  by (auto simp: make_psuedo_legal_move_def make_tail_def Let_def split: option.splits if_splits)

section \<open>Board equality\<close>

lemma board_to_fen_kings: "board_to_fen kings_board = Some kings_fen"
  by code_simp

lemma py_join_space6:
  "py_join sep [a, b, c, d, e, f] = a @ sep @ b @ sep @ c @ sep @ d @ sep @ e @ sep @ f"
  by simp

lemma board_to_fen_fields:
  "board_array a = board_array b \<Longrightarrow> white_to_move a = white_to_move b \<Longrightarrow>
   cr_str (castling_rights a) = cr_str (castling_rights b) \<Longrightarrow>
   en_passant_square a = en_passant_square b \<Longrightarrow> halfmove_clock a = halfmove_clock b \<Longrightarrow>
   fullmove_number a = fullmove_number b \<Longrightarrow> board_to_fen a = board_to_fen b"
  by (simp add: board_to_fen_def)

lemma board_to_fen_suffix:
  assumes "board_to_fen a = Some s"
  shows "\<exists>p. s = p @ '' '' @ num_str (num_floordiv1 (halfmove_clock a)) @ '' '' @ py_str_int (fullmove_number a)"
proof -
  from assms obtain pp ep where
    s: "s = py_join '' '' [pp, (if white_to_move a then ''w'' else ''b''), cr_str (castling_rights a), ep,
                  num_str (num_floordiv1 (halfmove_clock a)), py_str_int (fullmove_number a)]"
    by (auto simp: board_to_fen_def Let_def split: Option.bind_splits)
  show ?thesis unfolding s py_join_space6
    by (rule exI [of _ "pp @ '' '' @ (if white_to_move a then ''w'' else ''b'') @ '' '' @ cr_str (castling_rights a) @ '' '' @ ep"]) simp
qed

text \<open>
  C10. \<^verbatim>\<open>Board.__eq__\<close> answers True exactly when both boards encode to the same FEN
  string and False exactly when they encode to different ones; the encoded string ends
  with the halfmove clock and the fullmove number; replacing the move log, the position
  log and the cached legal moves of either board never changes the answer; and two boards
  with the same grid, side to move, castling string, en-passant square and clocks compare
  equal whenever they can be encoded.
\<close>

theorem board_eq_is_fen_equality:
  "(board_eq a b = Some True) = (\<exists>s. board_to_fen a = Some s \<and> board_to_fen b = Some s)
   \<and> (board_eq a b = Some False) = (\<exists>s t. board_to_fen a = Some s \<and> board_to_fen b = Some t \<and> s \<noteq> t)
   \<and> (\<forall>s. board_to_fen a = Some s \<longrightarrow>
         (\<exists>p. s = p @ '' '' @ num_str (num_floordiv1 (halfmove_clock a)) @ '' '' @ py_str_int (fullmove_number a)))
   \<and> board_eq (a \<lparr> move_log := ml, fen_log := fl, legal_moves := lm \<rparr>) b = board_eq a b
   \<and> board_eq a (b \<lparr> move_log := ml, fen_log := fl, legal_moves := lm \<rparr>) = board_eq a b
   \<and> (board_array a = board_array b \<and> white_to_move a = white_to_move b \<and>
      castling_rights_string (castling_rights a) = castling_rights_string (castling_rights b) \<and>
      en_passant_square a = en_passant_square b \<and> halfmove_clock a = halfmove_clock b \<and>
      fullmove_number a = fullmove_number b \<longrightarrow> board_eq a b = map_option (\<lambda>s. True) (board_to_fen a))"
proof (intro conjI)
  show "(board_eq a b = Some True) = (\<exists>s. board_to_fen a = Some s \<and> board_to_fen b = Some s)"
    by (auto simp: board_eq_def split: Option.bind_splits)
  show "(board_eq a b = Some False) = (\<exists>s t. board_to_fen a = Some s \<and> board_to_fen b = Some t \<and> s \<noteq> t)"
    by (auto simp: board_eq_def split: Option.bind_splits)
  show "\<forall>s. board_to_fen a = Some s \<longrightarrow>
         (\<exists>p. s = p @ '' '' @ num_str (num_floordiv1 (halfmove_clock a)) @ '' '' @ py_str_int (fullmove_number a))"
    using board_to_fen_suffix by blast
  show "board_eq (a \<lparr> move_log := ml, fen_log := fl, legal_moves := lm \<rparr>) b = board_eq a b"
    by (simp add: board_eq_def board_to_fen_def)
  show "board_eq a (b \<lparr> move_log := ml, fen_log := fl, legal_moves := lm \<rparr>) = board_eq a b"
    by (simp add: board_eq_def board_to_fen_def)
  show "board_array a = board_array b \<and> white_to_move a = white_to_move b \<and>
      castling_rights_string (castling_rights a) = castling_rights_string (castling_rights b) \<and>
      en_passant_square a = en_passant_square b \<and> halfmove_clock a = halfmove_clock b \<and>
      fullmove_number a = fullmove_number b \<longrightarrow> board_eq a b = map_option (\<lambda>s. True) (board_to_fen a)"
  proof
    assume h: "board_array a = board_array b \<and> white_to_move a = white_to_move b \<and>
      castling_rights_string (castling_rights a) = castling_rights_string (castling_rights b) \<and>
      en_passant_square a = en_passant_square b \<and> halfmove_clock a = halfmove_clock b \<and>
      fullmove_number a = fullmove_number b"
    then have "board_to_fen a = board_to_fen b"
      by (intro board_to_fen_fields) (simp_all add: cr_str_def)
    then show "board_eq a b = map_option (\<lambda>s. True) (board_to_fen a)"
      by (cases "board_to_fen b") (simp_all add: board_eq_def)
  qed
qed

theorem board_eq_is_fen_equality_witness:
  "board_to_fen kings_board = Some kings_fen
   \<and> board_eq kings_board (kings_board \<lparr> move_log := [quiet_move 7 4 6 4 ''wK'' ''e1e2'' ''Ke2''], fen_log := [], legal_moves := [] \<rparr>) = Some True
   \<and> (\<exists>p. kings_fen = p @ '' 5 10'')"
proof -
  have f: "board_to_fen kings_board = Some kings_fen" by (rule board_to_fen_kings)
  have g: "board_to_fen (kings_board \<lparr> move_log := [quiet_move 7 4 6 4 ''wK'' ''e1e2'' ''Ke2''], fen_log := [], legal_moves := [] \<rparr>) = Some kings_fen"
    using f by (simp add: board_to_fen_def)
  have n: "num_str (num_floordiv1 (halfmove_clock kings_board)) = ''5''" "py_str_int (fullmove_number kings_board) = ''10''"
    by code_simp+
  from board_eq_is_fen_equality [of kings_board "kings_board \<lparr> move_log := [quiet_move 7 4 6 4 ''wK'' ''e1e2'' ''Ke2''], fen_log := [], legal_moves := [] \<rparr>"] f g n
  show ?thesis by simp
qed

section \<open>Undoing a move on a well-formed grid\<close>

lemma undo_move_body_parts:
  assumes run: "undo_move_body b e = Some b'"
  obtains g1 g2 wk bk ep g3 g4 where
    "grid_set (board_array b) (start_row (last (move_log b))) (start_col (last (move_log b)))
       (piece_moved (last (move_log b))) = Some g1"
    "grid_set g1 (end_row (last (move_log b))) (end_col (last (move_log b)))
       (piece_captured (last (move_log b))) = Some g2"
    "get_king_locations g2 = Some (wk, bk)"
    "(g3 = g2 \<or> (\<exists>r c v. valid_piece v \<and> grid_set g2 r c v = Some g3))"
    "(g4 = g3 \<or> (\<exists>r d s. g4 = fst (relocate g3 r d s)))"
    "b' = b \<lparr> move_log := butlast (move_log b),
                        fullmove_number := fullmove_number b - (if white_to_move b then 1 else 0),
                        halfmove_clock := (if num_val (halfmove_clock b) \<noteq> 0 \<and> \<not> e
                           then num_sub_half (halfmove_clock b) else halfmove_clock b),
                        board_array := g4,
                        white_to_move := \<not> white_to_move b,
                        is_checkmate := False,
                        is_draw := False,
                        white_king_pos := wk,
                        black_king_pos := bk,
                        castling_rights := undo_castling_rights (castling_rights b),
                        en_passant_square := ep \<rparr>"
proof -
  define move where "move = last (move_log b)"
  define pm where "pm = piece_moved move"
  define E where "E g2 = (if pm ! 1 = CHR ''p'' \<and> \<bar>start_row move - end_row move\<bar> = 2 then
                   (if start_col move \<noteq> end_col move \<and> piece_captured move = ''--'' then
                      do { g \<leftarrow> grid_set g2 (end_row move + (if pm ! 0 = CHR ''w'' then 1 else - 1))
                                   (end_col move)
                                   ((if pm ! 0 = CHR ''b'' then ''w'' else ''b'') @ ''p'');
                           Some (Some (end_row move, end_col move), g) }
                    else Some (Some (end_row move, end_col move), g2))
                 else Some (None, g2))" for g2
  define C where "C g3 = (if is_castling move then
                   (if end_col move > start_col move then
                      (case relocate g3 (end_row move) (end_col move + 1) (end_col move - 1) of
                         (g, ok) \<Rightarrow> if ok then Some g else None)
                    else if end_col move < start_col move then
                      (case relocate g3 (end_row move) (end_col move - 2) (end_col move + 1) of
                         (g, ok) \<Rightarrow> if ok then Some g else None)
                    else Some g3)
                 else Some g3)" for g3
  have eq: "undo_move_body b e =
      do { g1 \<leftarrow> grid_set (board_array b) (start_row move) (start_col move) pm;
              g2 \<leftarrow> grid_set g1 (end_row move) (end_col move) (piece_captured move);
              (wk, bk) \<leftarrow> get_king_locations g2;
              (ep, g3) \<leftarrow> E g2;
              g4 \<leftarrow> C g3;
              Some (b \<lparr> move_log := butlast (move_log b),
                        fullmove_number := fullmove_number b - (if white_to_move b then 1 else 0),
                        halfmove_clock := (if num_val (halfmove_clock b) \<noteq> 0 \<and> \<not> e
                           then num_sub_half (halfmove_clock b) else halfmove_clock b),
                        board_array := g4,
                        white_to_move := \<not> white_to_move b,
                        is_checkmate := False,
                        is_draw := False,
                        white_king_pos := wk,
                        black_king_pos := bk,
                        castling_rights := undo_castling_rights (castling_rights b),
                        en_passant_square := ep \<rparr>) }"
    unfolding undo_move_body_def Let_def move_def pm_def E_def C_def by (rule refl)
  from run [unfolded eq] obtain g1 g2 wk bk ep g3 g4 where
    g1: "grid_set (board_array b) (start_row move) (start_col move) pm = Some g1"
    and g2: "grid_set g1 (end_row move) (end_col move) (piece_captured move) = Some g2"
    and k: "get_king_locations g2 = Some (wk, bk)"
    and E: "E g2 = Some (ep, g3)"
    and C: "C g3 = Some g4"
    and b': "b' = b \<lparr> move_log := butlast (move_log b),
                        fullmove_number := fullmove_number b - (if white_to_move b then 1 else 0),
                        halfmove_clock := (if num_val (halfmove_clock b) \<noteq> 0 \<and> \<not> e
                           then num_sub_half (halfmove_clock b) else halfmove_clock b),
                        board_array := g4,
                        white_to_move := \<not> white_to_move b,
                        is_checkmate := False,
                        is_draw := False,
                        white_king_pos := wk,
                        black_king_pos := bk,
                        castling_rights := undo_castling_rights (castling_rights b),
                        en_passant_square := ep \<rparr>"
    by (auto simp: bind_eq_Some_conv simp del: if_split split: prod.splits)
  have vp: "valid_piece ((if pm ! 0 = CHR ''b'' then ''w'' else ''b'') @ ''p'')"
    by (simp add: valid_piece_def)
  have e3: "g3 = g2 \<or> (\<exists>r c v. valid_piece v \<and> grid_set g2 r c v = Some g3)"
    using E vp unfolding E_def by (auto split: if_splits Option.bind_splits)
  have c4: "g4 = g3 \<or> (\<exists>r d s. g4 = fst (relocate g3 r d s))"
    using C unfolding C_def by (auto split: if_splits prod.splits) (metis fst_conv)+
  show thesis
    using that [OF g1 [unfolded move_def pm_def] g2 [unfolded move_def] k e3 c4 b'] .
qed

lemma undo_move_body_wf:
  assumes wf: "wf_grid (board_array b)" and ok: "move_ok (last (move_log b))"
    and run: "undo_move_body b e = Some b'"
  shows "wf_grid (board_array b')"
proof -
  from run obtain g1 g2 wk bk ep g3 g4 where
    g1: "grid_set (board_array b) (start_row (last (move_log b))) (start_col (last (move_log b)))
       (piece_moved (last (move_log b))) = Some g1"
    and g2: "grid_set g1 (end_row (last (move_log b))) (end_col (last (move_log b)))
       (piece_captured (last (move_log b))) = Some g2"
    and g3: "(g3 = g2 \<or> (\<exists>r c v. valid_piece v \<and> grid_set g2 r c v = Some g3))"
    and g4: "(g4 = g3 \<or> (\<exists>r d s. g4 = fst (relocate g3 r d s)))"
    and b': "board_array b' = g4"
    by (rule undo_move_body_parts) simp
  from wf g1 ok have "wf_grid g1" by (auto simp: move_ok_def intro: grid_set_wf)
  with g2 ok have "wf_grid g2" by (auto simp: move_ok_def intro: grid_set_wf)
  with g3 have "wf_grid g3" by (auto intro: grid_set_wf)
  with g4 have "wf_grid g4" by (auto intro: relocate_wf)
  with b' show ?thesis by simp
qed

lemma undo_move_body_fields:
  assumes "undo_move_body b e = Some b'"
  shows "move_log b' = butlast (move_log b)"
    "halfmove_clock b' = (if num_val (halfmove_clock b) \<noteq> 0 \<and> \<not> e
                           then num_sub_half (halfmove_clock b) else halfmove_clock b)"
    "fen_log b' = fen_log b" "legal_moves b' = legal_moves b"
    "white_to_move b' = (\<not> white_to_move b)"
    "fullmove_number b' = fullmove_number b - (if white_to_move b then 1 else 0)"
    "castling_rights b' = undo_castling_rights (castling_rights b)"
  by (rule undo_move_body_parts [OF assms], simp)+

section \<open>Regenerating the legal moves\<close>

lemma same_game_refl [simp]: "same_game b b"
  by (simp add: same_game_def)

lemma same_game_trans: "same_game a b \<Longrightarrow> same_game b c \<Longrightarrow> same_game a c"
  by (simp add: same_game_def)

lemma flip_twice:
  "b \<lparr> white_to_move := \<not> white_to_move b \<rparr>
     \<lparr> white_to_move := \<not> white_to_move (b \<lparr> white_to_move := \<not> white_to_move b \<rparr>) \<rparr> = b"
  by simp

lemma make_undo_pair:
  assumes wf: "wf_grid (board_array b)" and ok: "move_ok m"
    and mk: "make_psuedo_legal_move b m = Some b2" and un: "undo_move_engine b2 = Some b5"
  shows "wf_grid (board_array b5)" "same_game b b5"
proof -
  note f = make_psuedo_legal_move_fields [OF mk]
  from f(1) have ne: "move_log b2 \<noteq> []" and lst: "last (move_log b2) = m" by simp_all
  from un ne have ub: "undo_move_body b2 True = Some b5" by (simp add: undo_move_engine_def)
  have wf2: "wf_grid (board_array b2)" using wf ok mk by (rule make_psuedo_legal_move_wf)
  from wf2 ok ub show "wf_grid (board_array b5)" by (intro undo_move_body_wf [OF wf2 _ ub]) (simp add: lst)
  note u = undo_move_body_fields [OF ub]
  show "same_game b b5"
    unfolding same_game_def using f u by simp
qed

lemma legal_filter_inv:
  "legal_filter b ms = Some (kept, b') \<Longrightarrow> wf_grid (board_array b) \<Longrightarrow> list_all move_ok ms \<Longrightarrow>
   wf_grid (board_array b') \<and> same_game b b' \<and> set kept \<subseteq> set ms"
proof (induction ms arbitrary: kept b')
  case Nil
  then show ?case by simp
next
  case (Cons m ms)
  from Cons.prems(1) obtain kept1 b1 b2 chk b5 where
    rec: "legal_filter b ms = Some (kept1, b1)"
    and mk: "make_psuedo_legal_move b1 m = Some b2"
    and un: "undo_move_engine (b2 \<lparr> white_to_move := \<not> white_to_move b2 \<rparr>
               \<lparr> white_to_move := \<not> white_to_move (b2 \<lparr> white_to_move := \<not> white_to_move b2 \<rparr>) \<rparr>) = Some b5"
    and res: "kept = (if chk then kept1 else m # kept1)" "b' = b5"
    by (auto simp: bind_eq_Some_conv Let_def simp del: if_split split: prod.splits)
  from Cons.IH [OF rec Cons.prems(2)] Cons.prems(3)
  have ih: "wf_grid (board_array b1)" "same_game b b1" "set kept1 \<subseteq> set ms" by simp_all
  from un have un': "undo_move_engine b2 = Some b5" unfolding flip_twice .
  from Cons.prems(3) have ok: "move_ok m" by simp
  from make_undo_pair [OF ih(1) ok mk un'] ih res show ?case
    by (auto intro: same_game_trans)
qed

lemma move_ok_annot [simp]: "move_ok (m \<lparr> is_check := c \<rparr>) = move_ok m" "move_ok (m \<lparr> san := s \<rparr>) = move_ok m"
  by (simp_all add: move_ok_def split: option.splits)

lemma update_is_check_inv:
  "update_is_check b ms = Some (ms', b') \<Longrightarrow> wf_grid (board_array b) \<Longrightarrow> list_all move_ok ms \<Longrightarrow>
   wf_grid (board_array b') \<and> same_game b b' \<and> list_all move_ok ms' \<and>
   list_all2 (\<lambda>m m'. \<exists>c s. m' = m \<lparr> is_check := c, san := s \<rparr>) ms ms'"
proof (induction ms arbitrary: ms' b b')
  case Nil
  then show ?case by simp
next
  case (Cons m ms)
  from Cons.prems(1) obtain b1 chk b2 rest b3 where
    mk: "make_psuedo_legal_move b m = Some b1"
    and un: "undo_move_engine b1 = Some b2"
    and rec: "update_is_check b2 ms = Some (rest, b3)"
    and res: "ms' = (m \<lparr> is_check := chk \<rparr> \<lparr> san := get_san (m \<lparr> is_check := chk \<rparr>) \<rparr>) # rest" "b' = b3"
    by (auto simp: bind_eq_Some_conv Let_def simp del: if_split split: prod.splits)
  from Cons.prems(3) have ok: "move_ok m" and oks: "list_all move_ok ms" by simp_all
  note p = make_undo_pair [OF Cons.prems(2) ok mk un]
  from Cons.IH [OF rec p(1) oks] p(2) ok res show ?case
    by (auto intro: same_game_trans)
qed

lemma get_legal_moves_inv:
  assumes run: "get_legal_moves b = Some (ms, b')" and wf: "wf_grid (board_array b)"
  shows "wf_grid (board_array b')" "same_game b b'" "list_all move_ok ms"
proof -
  from run obtain ps cs kept b1 where ps: "get_psuedo_legal_moves b = Some ps"
    and cs: "get_castling_moves b (fst (if white_to_move b then white_king_pos b else black_king_pos b))
               (snd (if white_to_move b then white_king_pos b else black_king_pos b)) ps = Some cs"
    and lf: "legal_filter b cs = Some (kept, b1)"
    and ui: "update_is_check b1 kept = Some (ms, b')"
    by (auto simp: get_legal_moves_def bind_eq_Some_conv Let_def simp del: if_split split: prod.splits)
  have "list_all move_ok ps" using gen_new_move_ok [OF wf] ps by (rule get_psuedo_legal_moves_P)
  with cs have "list_all move_ok cs" using gen_new_move_ok [OF wf] by (blast intro: get_castling_moves_P)
  from legal_filter_inv [OF lf wf this] have 1: "wf_grid (board_array b1)" "same_game b b1"
    and "set kept \<subseteq> set cs" by simp_all
  with \<open>list_all move_ok cs\<close> have k: "list_all move_ok kept" by (auto simp: list_all_iff)
  from update_is_check_inv [OF ui 1(1) k] 1(2)
  show "wf_grid (board_array b')" "same_game b b'" "list_all move_ok ms"
    by (auto intro: same_game_trans)
qed

section \<open>The steps of \<^verbatim>\<open>make_legal_move\<close>\<close>

lemma update_en_passant_square_only:
  assumes "update_en_passant_square b m = Some b'"
  shows "\<exists>ep. b' = b \<lparr> en_passant_square := ep \<rparr>"
  using assms unfolding update_en_passant_square_def Let_def
  by (auto simp: bind_eq_Some_conv simp del: if_split split: if_split_asm)

lemma find_Some_set: "find P xs = Some x \<Longrightarrow> x \<in> set xs \<and> P x"
  by (induction xs) (auto split: if_splits)

lemma make_legal_move_parts:
  assumes acc: "accepted b m0" and run: "make_legal_move b m0 = Some b'"
  obtains move b1 fen ep moves b5 cm dr ml where
    "move \<in> set (legal_moves b)" "move_eq m0 move"
    "make_psuedo_legal_move b move = Some b1"
    "get_legal_moves (b1 \<lparr> fen_log := fen_log b1 @ [remove_extra_details fen], en_passant_square := ep,
        halfmove_clock := new_halfmove_clock (halfmove_clock b1) move \<rparr>) = Some (moves, b5)"
    "b' = b5 \<lparr> legal_moves := moves, is_checkmate := cm, is_draw := dr, move_log := ml \<rparr>"
    "ml = move_log b5 \<or> (\<exists>lst s. lst \<in> set (move_log b5) \<and> ml = butlast (move_log b5) @ [lst \<lparr> san := s \<rparr>])"
proof -
  from run acc obtain move b1 fen b3 moves b5 where
    fnd: "find (move_eq m0) (legal_moves b) = Some move"
    and mk: "make_psuedo_legal_move b move = Some b1"
    and fen: "board_to_fen b1 = Some fen"
    and ep: "update_en_passant_square (b1 \<lparr> fen_log := fen_log b1 @ [remove_extra_details fen] \<rparr>) move = Some b3"
    and gl: "get_legal_moves (b3 \<lparr> halfmove_clock := new_halfmove_clock (halfmove_clock b3) move \<rparr>) = Some (moves, b5)"
    and fin: "(if moves = [] then
               do { chk \<leftarrow> in_check (b5 \<lparr> legal_moves := moves \<rparr>);
                    if chk then
                      do { lst \<leftarrow> py_index (move_log (b5 \<lparr> legal_moves := moves \<rparr>)) (- 1);
                           Some (b5 \<lparr> legal_moves := moves \<rparr> \<lparr> is_checkmate := True,
                                      move_log := butlast (move_log (b5 \<lparr> legal_moves := moves \<rparr>)) @ [lst \<lparr> san := butlast (san lst) @ ''#'' \<rparr>] \<rparr>) }
                    else Some (b5 \<lparr> legal_moves := moves \<rparr> \<lparr> is_draw := True \<rparr>) }
             else if num_val (halfmove_clock (b5 \<lparr> legal_moves := moves \<rparr>)) = 50 \<or>
                     list_ex (\<lambda>x. count_list (fen_log (b5 \<lparr> legal_moves := moves \<rparr>)) x \<ge> 3) (fen_log (b5 \<lparr> legal_moves := moves \<rparr>))
             then Some (b5 \<lparr> legal_moves := moves \<rparr> \<lparr> is_draw := True \<rparr>)
             else Some (b5 \<lparr> legal_moves := moves \<rparr>)) = Some b'"
    unfolding make_legal_move_def Let_def
    by (auto simp: bind_eq_Some_conv simp del: if_split split: prod.splits)
  from update_en_passant_square_only [OF ep] obtain e where
    b3: "b3 = b1 \<lparr> fen_log := fen_log b1 @ [remove_extra_details fen] \<rparr> \<lparr> en_passant_square := e \<rparr>" by blast
  have gl': "get_legal_moves (b1 \<lparr> fen_log := fen_log b1 @ [remove_extra_details fen], en_passant_square := e,
        halfmove_clock := new_halfmove_clock (halfmove_clock b1) move \<rparr>) = Some (moves, b5)"
    using gl unfolding b3 by simp
  from fin have "\<exists>cm dr ml. b' = b5 \<lparr> legal_moves := moves, is_checkmate := cm, is_draw := dr, move_log := ml \<rparr> \<and>
      (ml = move_log b5 \<or> (\<exists>lst s. lst \<in> set (move_log b5) \<and> ml = butlast (move_log b5) @ [lst \<lparr> san := s \<rparr>]))"
  proof (cases "moves = []")
    case False
    with fin have "b' = b5 \<lparr> legal_moves := moves \<rparr> \<lparr> is_draw := True \<rparr> \<or> b' = b5 \<lparr> legal_moves := moves \<rparr>"
      by (auto split: if_split_asm)
    then show ?thesis
    proof
      assume "b' = b5 \<lparr> legal_moves := moves \<rparr> \<lparr> is_draw := True \<rparr>"
      then show ?thesis by (intro exI [of _ "is_checkmate b5"] exI [of _ True] exI [of _ "move_log b5"]) simp
    next
      assume "b' = b5 \<lparr> legal_moves := moves \<rparr>"
      then show ?thesis by (intro exI [of _ "is_checkmate b5"] exI [of _ "is_draw b5"] exI [of _ "move_log b5"]) simp
    qed
  next
    case True
    with fin obtain chk where chk: "in_check (b5 \<lparr> legal_moves := moves \<rparr>) = Some chk"
      and fin2: "(if chk then
                      do { lst \<leftarrow> py_index (move_log (b5 \<lparr> legal_moves := moves \<rparr>)) (- 1);
                           Some (b5 \<lparr> legal_moves := moves \<rparr> \<lparr> is_checkmate := True,
                                      move_log := butlast (move_log (b5 \<lparr> legal_moves := moves \<rparr>)) @ [lst \<lparr> san := butlast (san lst) @ ''#'' \<rparr>] \<rparr>) }
                    else Some (b5 \<lparr> legal_moves := moves \<rparr> \<lparr> is_draw := True \<rparr>)) = Some b'"
      by (auto simp: bind_eq_Some_conv simp del: if_split)
    show ?thesis
    proof (cases chk)
      case False
      with fin2 have "b' = b5 \<lparr> legal_moves := moves \<rparr> \<lparr> is_draw := True \<rparr>" by simp
      then show ?thesis by (intro exI [of _ "is_checkmate b5"] exI [of _ True] exI [of _ "move_log b5"]) simp
    next
      case True
      with fin2 obtain lst where lst: "py_index (move_log b5) (- 1) = Some lst"
        and b': "b' = b5 \<lparr> legal_moves := moves \<rparr> \<lparr> is_checkmate := True,
                    move_log := butlast (move_log b5) @ [lst \<lparr> san := butlast (san lst) @ ''#'' \<rparr>] \<rparr>"
        by (auto simp: bind_eq_Some_conv)
      from lst have "lst \<in> set (move_log b5)" by (rule py_index_Some)
      with b' show ?thesis
        by (intro exI [of _ True] exI [of _ "is_draw b5"]
              exI [of _ "butlast (move_log b5) @ [lst \<lparr> san := butlast (san lst) @ ''#'' \<rparr>]"]) auto
    qed
  qed
  then obtain cm dr ml where b': "b' = b5 \<lparr> legal_moves := moves, is_checkmate := cm, is_draw := dr, move_log := ml \<rparr>"
    and ml: "ml = move_log b5 \<or> (\<exists>lst s. lst \<in> set (move_log b5) \<and> ml = butlast (move_log b5) @ [lst \<lparr> san := s \<rparr>])"
    by blast
  from find_Some_set [OF fnd] have 1: "move \<in> set (legal_moves b)" and 2: "move_eq m0 move" by simp_all
  show thesis by (rule that [OF 1 2 mk gl' b' ml])
qed

section \<open>An invariant of the reachable boards\<close>

lemma make_legal_move_inv:
  assumes inv: "board_inv b" and run: "make_legal_move b m0 = Some b'"
  shows "board_inv b'"
proof (cases "accepted b m0")
  case False
  with run have "b' = b" by (simp add: make_legal_move_def)
  with inv show ?thesis by simp
next
  case True
  from True run obtain move b1 fen ep moves b5 cm dr ml where
    mem: "move \<in> set (legal_moves b)"
    and mk: "make_psuedo_legal_move b move = Some b1"
    and gl: "get_legal_moves (b1 \<lparr> fen_log := fen_log b1 @ [remove_extra_details fen], en_passant_square := ep,
        halfmove_clock := new_halfmove_clock (halfmove_clock b1) move \<rparr>) = Some (moves, b5)"
    and b': "b' = b5 \<lparr> legal_moves := moves, is_checkmate := cm, is_draw := dr, move_log := ml \<rparr>"
    and ml: "ml = move_log b5 \<or> (\<exists>lst s. lst \<in> set (move_log b5) \<and> ml = butlast (move_log b5) @ [lst \<lparr> san := s \<rparr>])"
    by (rule make_legal_move_parts)
  from inv mem have ok: "move_ok move" by (auto simp: board_inv_def list_all_iff)
  from inv have wf: "wf_grid (board_array b)" by (simp add: board_inv_def)
  have wf1: "wf_grid (board_array b1)" using wf ok mk by (rule make_psuedo_legal_move_wf)
  note f = make_psuedo_legal_move_fields [OF mk]
  have wf4: "wf_grid (board_array (b1 \<lparr> fen_log := fen_log b1 @ [remove_extra_details fen], en_passant_square := ep,
        halfmove_clock := new_halfmove_clock (halfmove_clock b1) move \<rparr>))" using wf1 by simp
  note g = get_legal_moves_inv [OF gl wf4]
  from g(2) f(1) have log5: "move_log b5 = move_log b @ [move]" by (simp add: same_game_def)
  with inv ok have ok5: "list_all move_ok (move_log b5)" by (simp add: board_inv_def)
  have "list_all move_ok ml"
    using ml
  proof
    assume "ml = move_log b5"
    with ok5 show ?thesis by simp
  next
    assume "\<exists>lst s. lst \<in> set (move_log b5) \<and> ml = butlast (move_log b5) @ [lst \<lparr> san := s \<rparr>]"
    then obtain lst s where lst: "lst \<in> set (move_log b5)" and m: "ml = butlast (move_log b5) @ [lst \<lparr> san := s \<rparr>]"
      by blast
    from ok5 lst have "move_ok lst" by (simp add: list_all_iff)
    moreover from ok5 have "list_all move_ok (butlast (move_log b5))"
      by (auto simp: list_all_iff dest: in_set_butlastD)
    ultimately show ?thesis by (simp add: m)
  qed
  with g b' show ?thesis by (simp add: board_inv_def)
qed

lemma undo_move_inv:
  assumes inv: "board_inv b" and run: "undo_move b e = Some b'"
  shows "board_inv b'"
proof (cases "move_log b = []")
  case True
  with run have "b' = b" by (simp add: undo_move_def)
  with inv show ?thesis by simp
next
  case False
  with run obtain b1 where ub: "undo_move_body b e = Some b1"
    and rest: "(if \<not> e then
               (if fen_log b1 = [] then None
                else do { (moves, b2) \<leftarrow> get_legal_moves (b1 \<lparr> fen_log := butlast (fen_log b1) \<rparr>);
                          Some (b2 \<lparr> legal_moves := moves \<rparr>) })
             else Some b1) = Some b'"
    by (auto simp: undo_move_def bind_eq_Some_conv simp del: if_split)
  from inv False have ok: "move_ok (last (move_log b))" by (simp add: board_inv_def list_all_iff)
  from inv have wf: "wf_grid (board_array b)" by (simp add: board_inv_def)
  have wf1: "wf_grid (board_array b1)" using wf ok ub by (rule undo_move_body_wf)
  note u = undo_move_body_fields [OF ub]
  from inv have okl: "list_all move_ok (move_log b1)"
    unfolding u(1) by (auto simp: board_inv_def list_all_iff dest: in_set_butlastD)
  from inv have okm: "list_all move_ok (legal_moves b1)" unfolding u(4) by (simp add: board_inv_def)
  show ?thesis
  proof (cases e)
    case True
    with rest have "b' = b1" by simp
    with wf1 okl okm show ?thesis by (simp add: board_inv_def)
  next
    case False
    with rest obtain moves b2 where
      gl: "get_legal_moves (b1 \<lparr> fen_log := butlast (fen_log b1) \<rparr>) = Some (moves, b2)"
      and b': "b' = b2 \<lparr> legal_moves := moves \<rparr>"
      by (auto simp: bind_eq_Some_conv split: if_split_asm prod.splits)
    have "wf_grid (board_array (b1 \<lparr> fen_log := butlast (fen_log b1) \<rparr>))" using wf1 by simp
    note g = get_legal_moves_inv [OF gl this]
    from g(2) okl have "list_all move_ok (move_log b2)" by (simp add: same_game_def)
    with g b' show ?thesis by (simp add: board_inv_def)
  qed
qed

lemma for_each_Some_each:
  "for_each xs body s = Some s' \<Longrightarrow> x \<in> set xs \<Longrightarrow> \<exists>t t'. body x t = Some t'"
proof (induction xs arbitrary: s)
  case Nil
  then show ?case by simp
next
  case (Cons y ys)
  from Cons.prems(1) obtain t where t: "body y s = Some t" and rest: "for_each ys body t = Some s'"
    by (auto simp: bind_eq_Some_conv)
  show ?case
  proof (cases "x = y")
    case True
    with t show ?thesis by blast
  next
    case False
    with Cons.prems(2) have "x \<in> set ys" by simp
    with Cons.IH [OF rest] show ?thesis by blast
  qed
qed

lemma scanned_squares_exist:
  assumes run: "get_psuedo_legal_moves b = Some ms" and rc: "(row, col) \<in> set squares"
  shows "\<exists>p. grid_get (board_array b) row col = Some p"
proof -
  from run have "for_each squares (scan_square b) [] = Some ms" by (simp add: get_psuedo_legal_moves_def)
  from for_each_Some_each [OF this rc] obtain t t' where "scan_square b (row, col) t = Some t'" by blast
  then show ?thesis by (auto simp: scan_square_def bind_eq_Some_conv simp del: if_split)
qed

lemma grid_get_length:
  assumes "grid_get g r c = Some p" "0 \<le> r" "0 \<le> c"
  shows "nat r < length g \<and> nat c < length (g ! nat r)"
  using assms by (auto simp: grid_get_def py_index_def Let_def bind_eq_Some_conv split: if_split_asm)

lemma scanned_grid_shape:
  assumes run: "get_psuedo_legal_moves b = Some ms"
  shows "8 \<le> length (board_array b) \<and> list_all (\<lambda>row. 8 \<le> length row) (take 8 (board_array b))"
proof -
  have sq: "(int j, 7) \<in> set squares" if "j < 8" for j
  proof -
    from that have "j \<in> {0, 1, 2, 3, 4, 5, 6, 7}" by auto
    then show ?thesis by (auto simp: squares_def)
  qed
  have len: "j < length (board_array b) \<and> 7 < length (board_array b ! j)" if "j < 8" for j
  proof -
    from scanned_squares_exist [OF run sq [OF that]] obtain p where
      "grid_get (board_array b) (int j) 7 = Some p" by blast
    from grid_get_length [OF this] show ?thesis by simp
  qed
  from len [of 7] have l: "8 \<le> length (board_array b)" by simp
  moreover have "list_all (\<lambda>row. 8 \<le> length row) (take 8 (board_array b))"
    unfolding list_all_length
  proof (intro allI impI)
    fix n
    assume "n < length (take 8 (board_array b))"
    then have n: "n < 8" by simp
    from len [OF n] have "8 \<le> length (board_array b ! n)" by simp
    with n show "8 \<le> length (take 8 (board_array b) ! n)" by simp
  qed
  ultimately show ?thesis by simp
qed

lemma valid_fen_symbols: "valid_piece (fen_symbols c)"
  by (simp add: fen_symbols_def valid_piece_def)

lemma fen_row_decode_valid: "p \<in> set (fen_row_decode row) \<Longrightarrow> valid_piece p"
  by (auto simp: fen_row_decode_def valid_fen_symbols split: if_split_asm)

lemma fen_to_board_valid:
  assumes "fen_to_board fen = Some result"
  shows "list_all (list_all valid_piece) (fr_board result)"
proof -
  from assms obtain pp where "fr_board result = map fen_row_decode (split_on CHR ''/'' pp)"
    unfolding fen_to_board_def Let_def
    by (auto simp: bind_eq_Some_conv)
  then show ?thesis by (auto simp: list_all_iff dest: fen_row_decode_valid)
qed

lemma new_Board_inv:
  assumes run: "new_Board fen = Some b"
  shows "board_inv b"
proof -
  from run obtain result f wk bk moves b3 where res: "fen_to_board fen = Some result"
    and gl: "get_legal_moves (\<lparr> board_array = fr_board result, white_to_move = fr_active_color result,
                     castling_rights = fr_castling_rights result,
                     en_passant_square = fr_en_passant_target result,
                     halfmove_clock = PyInt (fr_halfmove_clock result),
                     fullmove_number = fr_fullmove_number result,
                     move_log = [], fen_log = [], white_king_pos = (0, 0), black_king_pos = (0, 0),
                     is_checkmate = False, is_draw = False, legal_moves = [] \<rparr>
            \<lparr> fen_log := [py_take f (py_rfind CHR '' '' (py_take f (py_rfind CHR '' '' f)))] \<rparr>
            \<lparr> white_king_pos := wk, black_king_pos := bk \<rparr>) = Some (moves, b3)"
      (is "get_legal_moves ?b2 = _")
    and b: "b = b3 \<lparr> legal_moves := moves \<rparr>"
    unfolding new_Board_def Let_def
    by (auto simp: bind_eq_Some_conv split: prod.splits)
  from gl obtain ps where ps: "get_psuedo_legal_moves ?b2 = Some ps"
    by (auto simp: get_legal_moves_def bind_eq_Some_conv simp del: if_split)
  from scanned_grid_shape [OF ps] fen_to_board_valid [OF res]
  have wf: "wf_grid (board_array ?b2)" by (simp add: wf_grid_def)
  note g = get_legal_moves_inv [OF gl wf]
  from g(2) have "move_log b3 = []" by (simp add: same_game_def)
  with g b show ?thesis by (simp add: board_inv_def)
qed

lemma reachable_inv: "reachable b \<Longrightarrow> board_inv b"
  by (induction rule: reachable.induct) (auto intro: new_Board_inv make_legal_move_inv undo_move_inv)

section \<open>The example positions, evaluated\<close>

lemma new_Board_kings: "new_Board kings_fen = Some kings_board"
  by code_simp

lemma make_kings:
  "make_legal_move kings_board (quiet_move 7 4 7 3 ''wK'' ''e1d1'' ''Kd1'') = Some kings_after"
  by code_simp

lemma undo_kings: "undo_move kings_after False = Some (kings_board \<lparr> halfmove_clock := PyInt 0 \<rparr>)"
  by code_simp


lemma new_Board_castle: "new_Board castle_fen = Some castle_board"
  by code_simp

lemma castle_generated: "get_castling_moves castle_board 7 4 [] = Some [queenside_castle]"
  by code_simp

lemma castle_b1: "grid_get (board_array castle_board) 7 1 = Some ''wN''"
  by code_simp


section \<open>An accepted move\<close>

lemma valid_piece_not_p: "valid_piece p \<Longrightarrow> p \<noteq> ''p''"
  by (auto simp: valid_piece_def)

lemma new_halfmove_clock_zero:
  assumes "piece_moved m \<noteq> ''p''"
  shows "new_halfmove_clock hm m = PyInt 0"
  using assms by (simp add: new_halfmove_clock_def)

lemma accepted_make_legal_move:
  assumes r: "reachable b" and acc: "accepted b m" and run: "make_legal_move b m = Some b'"
  shows "halfmove_clock b' = PyInt 0" "length (move_log b') = Suc (length (move_log b))"
proof -
  from acc run obtain move b1 fen ep moves b5 cm dr ml where
    mem: "move \<in> set (legal_moves b)"
    and mk: "make_psuedo_legal_move b move = Some b1"
    and gl: "get_legal_moves (b1 \<lparr> fen_log := fen_log b1 @ [remove_extra_details fen], en_passant_square := ep,
        halfmove_clock := new_halfmove_clock (halfmove_clock b1) move \<rparr>) = Some (moves, b5)"
    and b': "b' = b5 \<lparr> legal_moves := moves, is_checkmate := cm, is_draw := dr, move_log := ml \<rparr>"
    and ml: "ml = move_log b5 \<or> (\<exists>lst s. lst \<in> set (move_log b5) \<and> ml = butlast (move_log b5) @ [lst \<lparr> san := s \<rparr>])"
    by (rule make_legal_move_parts)
  from reachable_inv [OF r] have inv: "board_inv b" .
  from inv mem have ok: "move_ok move" by (auto simp: board_inv_def list_all_iff)
  then have z: "new_halfmove_clock (halfmove_clock b1) move = PyInt 0"
    by (intro new_halfmove_clock_zero valid_piece_not_p) (simp add: move_ok_def)
  from inv have wf: "wf_grid (board_array b)" by (simp add: board_inv_def)
  have wf1: "wf_grid (board_array b1)" using wf ok mk by (rule make_psuedo_legal_move_wf)
  note f = make_psuedo_legal_move_fields [OF mk]
  have wf4: "wf_grid (board_array (b1 \<lparr> fen_log := fen_log b1 @ [remove_extra_details fen], en_passant_square := ep,
        halfmove_clock := new_halfmove_clock (halfmove_clock b1) move \<rparr>))" using wf1 by simp
  note g = get_legal_moves_inv [OF gl wf4]
  from g(2) z b' show "halfmove_clock b' = PyInt 0" by (simp add: same_game_def)
  from g(2) f(1) have log5: "move_log b5 = move_log b @ [move]" by (simp add: same_game_def)
  from ml log5 b' show "length (move_log b') = Suc (length (move_log b))" by auto
qed

section \<open>Castling rights\<close>


lemma has_rights_log [simp]:
  "has_rights (cr \<lparr> castling_rights_log := l \<rparr>) s = has_rights cr s"
  by (simp add: has_rights_def)




section \<open>Rejected moves\<close>




section \<open>Making a move and undoing it\<close>

lemma board_to_fen_kings_undone:
  "board_to_fen (kings_board \<lparr> halfmove_clock := PyInt 0 \<rparr>) = Some ''4k3/8/8/8/8/8/8/4K3 w - - 0 10''"
  by code_simp

lemma Kd1_legal: "list_ex (move_eq (quiet_move 7 4 7 3 ''wK'' ''e1d1'' ''Kd1'')) (legal_moves kings_board)"
  by code_simp

text \<open>
  C1 at a board the constructor returns. The board is loaded with the halfmove clock at
  5; White plays the legal move \<^verbatim>\<open>Kd1\<close> and takes it back with the user-facing undo
  (\<^verbatim>\<open>in_engine=False\<close>). The board that results encodes with the clock at 0, not at 5:
  making the move set the clock to 0, and the undo subtracts from a clock only when it is
  not 0.
\<close>

theorem undo_loses_halfmove_clock:
  "new_Board ''4k3/8/8/8/8/8/8/4K3 w - - 5 10'' = Some kings_board
   \<and> list_ex (move_eq (quiet_move 7 4 7 3 ''wK'' ''e1d1'' ''Kd1'')) (legal_moves kings_board)
   \<and> make_legal_move kings_board (quiet_move 7 4 7 3 ''wK'' ''e1d1'' ''Kd1'') = Some kings_after
   \<and> undo_move kings_after False = Some (kings_board \<lparr> halfmove_clock := PyInt 0 \<rparr>)
   \<and> board_to_fen kings_board = Some ''4k3/8/8/8/8/8/8/4K3 w - - 5 10''
   \<and> board_to_fen (kings_board \<lparr> halfmove_clock := PyInt 0 \<rparr>) = Some ''4k3/8/8/8/8/8/8/4K3 w - - 0 10''"
  using new_Board_kings Kd1_legal make_kings undo_kings board_to_fen_kings board_to_fen_kings_undone
  by (simp add: kings_fen_def)

section \<open>The halfmove clock\<close>

text \<open>The value line 423 assigns is 0 for every move of a reachable board: its condition
  asks the piece code to differ from a pawn's in its second character and to be the
  one-character string \<^verbatim>\<open>'p'\<close> at once.\<close>

lemma halfmove_clock_reset_on_every_move:
  "reachable b \<Longrightarrow> list_ex (move_eq m) (legal_moves b) \<Longrightarrow> \<not> is_checkmate b \<Longrightarrow> \<not> is_draw b \<Longrightarrow>
   make_legal_move b m = Some b' \<Longrightarrow> halfmove_clock b' = PyInt 0"
  by (rule accepted_make_legal_move(1) [of b m b']) (simp_all add: accepted_def)

text \<open>
  C2 at a board the constructor returns. The clock stands at 5; the king move \<^verbatim>\<open>Kd1\<close>
  moves no pawn and captures nothing, so the clock should become 6. The code leaves it
  at 0.
\<close>

theorem halfmove_clock_reset_by_quiet_move:
  "make_legal_move kings_board (quiet_move 7 4 7 3 ''wK'' ''e1d1'' ''Kd1'') = Some kings_after
   \<and> piece_moved (quiet_move 7 4 7 3 ''wK'' ''e1d1'' ''Kd1'') = ''wK''
   \<and> piece_captured (quiet_move 7 4 7 3 ''wK'' ''e1d1'' ''Kd1'') = ''--''
   \<and> halfmove_clock kings_board = PyInt 5
   \<and> halfmove_clock kings_after = PyInt 0"
  using make_kings by (simp add: quiet_move_def kings_board_def kings_after_def)

section \<open>The castling-rights update\<close>



section \<open>The attack query\<close>

lemma square_under_attack_alt:
  "square_under_attack b row col =
     map_option (list_ex (\<lambda>m. end_row m = row \<and> end_col m = col))
       (get_psuedo_legal_moves (b \<lparr> white_to_move := \<not> white_to_move b \<rparr>))"
  by (cases "get_psuedo_legal_moves (b \<lparr> white_to_move := \<not> white_to_move b \<rparr>)")
     (simp_all add: square_under_attack_def)

lemma in_check_defined:
  assumes "wf_grid (board_array b)"
  shows "\<exists>v. in_check b = Some v"
  using square_under_attack_defined [OF assms] by (simp add: in_check_def)

text \<open>
  C9. No move that \<^verbatim>\<open>get_psuedo_legal_moves\<close> returns has its castling flag set;
  \<^verbatim>\<open>square_under_attack\<close> is computed from the opponent's pseudo-legal moves alone (it
  is defined before, and without, \<^verbatim>\<open>get_castling_moves\<close>); on every reachable board the
  generator, the attack query and \<^verbatim>\<open>in_check\<close> return a value; and every move
  \<^verbatim>\<open>get_castling_moves\<close> adds to the list it is given is a castling move.
\<close>

theorem attack_query_never_castles:
  "(\<forall>ms. get_psuedo_legal_moves b = Some ms \<longrightarrow> list_all (\<lambda>m. \<not> is_castling m) ms)
   \<and> square_under_attack b row col =
       map_option (list_ex (\<lambda>m. end_row m = row \<and> end_col m = col))
         (get_psuedo_legal_moves (b \<lparr> white_to_move := \<not> white_to_move b \<rparr>))
   \<and> (reachable b \<longrightarrow>
        (\<exists>ms. get_psuedo_legal_moves b = Some ms) \<and>
        (\<exists>v. square_under_attack b row col = Some v) \<and> (\<exists>v. in_check b = Some v))
   \<and> (\<forall>ms ms'. get_castling_moves b row col ms = Some ms' \<longrightarrow>
        (\<exists>cs. ms' = ms @ cs \<and> list_all is_castling cs))"
proof (intro conjI allI impI)
  fix ms
  assume "get_psuedo_legal_moves b = Some ms"
  with gen_new_not_castling show "list_all (\<lambda>m. \<not> is_castling m) ms"
    by (rule get_psuedo_legal_moves_P)
next
  show "square_under_attack b row col =
       map_option (list_ex (\<lambda>m. end_row m = row \<and> end_col m = col))
         (get_psuedo_legal_moves (b \<lparr> white_to_move := \<not> white_to_move b \<rparr>))"
    by (rule square_under_attack_alt)
next
  assume "reachable b"
  then have wf: "wf_grid (board_array b)" using reachable_inv by (simp add: board_inv_def)
  from wf show "\<exists>ms. get_psuedo_legal_moves b = Some ms" by (rule get_psuedo_legal_moves_defined)
  from wf show "\<exists>v. square_under_attack b row col = Some v" by (rule square_under_attack_defined)
  from wf show "\<exists>v. in_check b = Some v" by (rule in_check_defined)
next
  fix ms ms'
  assume "get_castling_moves b row col ms = Some ms'"
  then show "\<exists>cs. ms' = ms @ cs \<and> list_all is_castling cs" by (rule get_castling_moves_appends)
qed

theorem attack_query_never_castles_witness:
  "reachable castle_board
   \<and> (\<exists>ms. get_psuedo_legal_moves castle_board = Some ms \<and> list_all (\<lambda>m. \<not> is_castling m) ms)
   \<and> (\<exists>v. square_under_attack castle_board 7 3 = Some v)
   \<and> (\<exists>v. in_check castle_board = Some v)
   \<and> get_castling_moves castle_board 7 4 [] = Some [queenside_castle]
   \<and> (\<exists>cs. [queenside_castle] = [] @ cs \<and> list_all is_castling cs)"
proof -
  have r: "reachable castle_board" using new_Board_castle by (rule reachable_new)
  note t = attack_query_never_castles [of castle_board 7 3]
  from t r obtain ms where ms: "get_psuedo_legal_moves castle_board = Some ms" by blast
  with t have nc: "list_all (\<lambda>m. \<not> is_castling m) ms" by blast
  from t r have a: "\<exists>v. square_under_attack castle_board 7 3 = Some v" "\<exists>v. in_check castle_board = Some v"
    by blast+
  from attack_query_never_castles [of castle_board 7 4] castle_generated
  have c: "\<exists>cs. [queenside_castle] = [] @ cs \<and> list_all is_castling cs" by blast
  from r ms nc a c castle_generated show ?thesis by blast
qed

section \<open>When castling is generated\<close>

lemma castle_legal: "list_ex (move_eq queenside_castle) (legal_moves castle_board)"
  by code_simp

text \<open>
  C5 at a board the constructor returns. White's king is on e1 with the queenside right,
  the rook on a1 and a white knight on b1, a square strictly between king and rook. The
  queenside test of \<^verbatim>\<open>get_castling_moves\<close> looks at d1 and c1 only, so the castling
  move is generated, and it is in the board's legal moves.
\<close>

theorem queenside_castling_past_occupied_b1:
  "new_Board ''4k3/8/8/8/8/8/8/RN2K3 w Q - 0 1'' = Some castle_board
   \<and> white_king_pos castle_board = (7, 4)
   \<and> grid_get (board_array castle_board) 7 0 = Some ''wR''
   \<and> grid_get (board_array castle_board) 7 1 = Some ''wN''
   \<and> get_castling_moves castle_board 7 4 [] = Some [queenside_castle]
   \<and> is_castling queenside_castle \<and> end_col queenside_castle = 2
   \<and> list_ex (move_eq queenside_castle) (legal_moves castle_board)"
proof -
  have a: "white_king_pos castle_board = (7, 4)" by (simp add: castle_board_def)
  have b: "grid_get (board_array castle_board) 7 0 = Some ''wR''" by code_simp
  have c: "is_castling queenside_castle" "end_col queenside_castle = 2" by (simp_all add: queenside_castle_def)
  from new_Board_castle a b c castle_b1 castle_generated castle_legal show ?thesis
    by (simp add: castle_fen_def)
qed

end
